theory Spec2Isabelle
  imports Complex_Main
begin

section \<open>Dense containers and the linear-algebra services the solvers consume\<close>

text \<open>
  \<open>Matrix<Real>\<close>: a height, a width and the entries. Column vectors (the iterates
  \<open>x, y, z\<close>, the right-hand sides \<open>b, c\<close>, the residuals) are kept as lists of their
  entries. \<open>Real\<close> is modelled by the real numbers: rounding, infinities and NaN are outside
  the model.
\<close>

record Matrix =
  Height :: nat
  Width :: nat
  Get :: "nat \<Rightarrow> nat \<Rightarrow> real"

type_synonym vec = "real list"

text \<open>
  The services below are external collaborators of the solver (they are not part of the
  sources under study); each is given its documented BLAS-like meaning.
\<close>

definition Ones :: "nat \<Rightarrow> vec" where
  "Ones m = replicate m 1"

definition Zeros :: "nat \<Rightarrow> vec" where
  "Zeros m = replicate m 0"

definition Dot :: "vec \<Rightarrow> vec \<Rightarrow> real" where
  "Dot u v = sum_list (map2 (*) u v)"

definition Nrm2 :: "vec \<Rightarrow> real" where
  "Nrm2 v = sqrt (sum_list (map (\<lambda>a. a * a) v))"

definition Scale :: "real \<Rightarrow> vec \<Rightarrow> vec" where
  "Scale alpha v = map (\<lambda>a. alpha * a) v"

text \<open>\<open>Axpy( alpha, X, Y )\<close>: \<open>Y := alpha X + Y\<close>.\<close>

definition Axpy :: "real \<Rightarrow> vec \<Rightarrow> vec \<Rightarrow> vec" where
  "Axpy alpha u v = map2 (\<lambda>a b. alpha * a + b) u v"

text \<open>\<open>Shift( v, a )\<close> adds \<open>a\<close> to every entry.\<close>

definition Shift :: "vec \<Rightarrow> real \<Rightarrow> vec" where
  "Shift v a = map (\<lambda>e. e + a) v"

text \<open>\<open>DiagonalScale( LEFT, NORMAL, d, v )\<close> and \<open>DiagonalSolve( LEFT, NORMAL, d, v )\<close>.\<close>

definition DiagonalScale :: "vec \<Rightarrow> vec \<Rightarrow> vec" where
  "DiagonalScale d v = map2 (\<lambda>di e. di * e) d v"

definition DiagonalSolve :: "vec \<Rightarrow> vec \<Rightarrow> vec" where
  "DiagonalSolve d v = map2 (\<lambda>di e. e / di) d v"

definition DiagonalSolveLeft :: "vec \<Rightarrow> Matrix \<Rightarrow> Matrix" where
  "DiagonalSolveLeft d M = M\<lparr>Get := (\<lambda>i j. Get M i j / d ! i)\<rparr>"

definition DiagonalSolveRight :: "vec \<Rightarrow> Matrix \<Rightarrow> Matrix" where
  "DiagonalSolveRight d M = M\<lparr>Get := (\<lambda>i j. Get M i j / d ! j)\<rparr>"

text \<open>\<open>Gemv( NORMAL, alpha, A, x, beta, y )\<close>: \<open>y := alpha A x + beta y\<close>.\<close>

definition GemvNormal :: "real \<Rightarrow> Matrix \<Rightarrow> vec \<Rightarrow> real \<Rightarrow> vec \<Rightarrow> vec" where
  "GemvNormal alpha A u beta v =
     map (\<lambda>i. alpha * sum_list (map (\<lambda>j. Get A i j * u ! j) [0..<Width A]) + beta * v ! i)
       [0..<Height A]"

text \<open>\<open>Gemv( TRANSPOSE, alpha, A, y, beta, r )\<close>: \<open>r := alpha A\<^sup>T y + beta r\<close>.\<close>

definition GemvTranspose :: "real \<Rightarrow> Matrix \<Rightarrow> vec \<Rightarrow> real \<Rightarrow> vec \<Rightarrow> vec" where
  "GemvTranspose alpha A u beta v =
     map (\<lambda>j. alpha * sum_list (map (\<lambda>i. Get A i j * u ! i) [0..<Height A]) + beta * v ! j)
       [0..<Width A]"

text \<open>
  \<open>Hemv( LOWER, alpha, Q, x, beta, y )\<close>: \<open>y := alpha Q x + beta y\<close> for a symmetric \<open>Q\<close> of
  which only the lower triangle is read.
\<close>

definition HemvLower :: "real \<Rightarrow> Matrix \<Rightarrow> vec \<Rightarrow> real \<Rightarrow> vec \<Rightarrow> vec" where
  "HemvLower alpha Q u beta v =
     map (\<lambda>i. alpha * sum_list (map (\<lambda>j. (if j \<le> i then Get Q i j else Get Q j i) * u ! j)
                                  [0..<Height Q]) + beta * v ! i)
       [0..<Height Q]"

text \<open>\<open>NumNonPositive( x )\<close>: the number of entries that are not strictly positive.\<close>

definition NumNonPositive :: "vec \<Rightarrow> nat" where
  "NumNonPositive v = length (filter (\<lambda>e. e \<le> 0) v)"

text \<open>
  Modelled from the spec: \<open>MaxStepInPositiveCone( s, ds, upperBound )\<close> is not among the
  sources; the spec describes it as the ratio test over the negative-direction entries.
  The third argument is the cap the call sites pass (\<open>Real(1)\<close>).
\<close>

definition ratioTest :: "real \<times> real \<Rightarrow> real \<Rightarrow> real" where
  "ratioTest p alpha = (case p of (si, dsi) \<Rightarrow> if dsi < 0 then min alpha (- si / dsi) else alpha)"

definition MaxStepInPositiveCone :: "vec \<Rightarrow> vec \<Rightarrow> real \<Rightarrow> real" where
  "MaxStepInPositiveCone s ds upperBound = fold ratioTest (zip s ds) upperBound"

section \<open>The infeasible path-following driver \<open>qp::direct::IPF\<close> (dense, sequential)\<close>

datatype KKTSystem = FULL_KKT | AUGMENTED_KKT | NORMAL_KKT

record IPFCtrl =
  primalInitialized :: bool
  dualInitialized :: bool
  tol :: real
  maxIts :: int
  centering :: real
  system :: KKTSystem

text \<open>
  The exceptions the driver raises: the cone check's \<open>LogicError\<close> with the two counts,
  the \<open>RuntimeError\<close> of the iteration budget with the configured maximum, and the
  \<open>LogicError\<close> of an unknown KKT system.
\<close>

datatype error =
    NonPositiveEntries nat nat
  | MaxItsExceeded int
  | InvalidKKTSystem

type_synonym iterate = "vec \<times> vec \<times> vec"

text \<open>
  The collaborators the loop delegates to: the initialisation, the two ways of computing
  the Newton direction from \<open>(Q, A, x, z, rc, rb, rmu)\<close> (assembly of the KKT system,
  symmetric solve, expansion of the solution), and the line search.
\<close>

record Collaborators =
  Initialize :: "Matrix \<Rightarrow> Matrix \<Rightarrow> vec \<Rightarrow> vec \<Rightarrow> iterate \<Rightarrow> bool \<Rightarrow> bool \<Rightarrow> bool \<Rightarrow> iterate"
  FullKKTStep :: "Matrix \<Rightarrow> Matrix \<Rightarrow> vec \<Rightarrow> vec \<Rightarrow> vec \<Rightarrow> vec \<Rightarrow> vec \<Rightarrow> iterate"
  AugmentedKKTStep :: "Matrix \<Rightarrow> Matrix \<Rightarrow> vec \<Rightarrow> vec \<Rightarrow> vec \<Rightarrow> vec \<Rightarrow> vec \<Rightarrow> iterate"
  IPFLineSearch :: "Matrix \<Rightarrow> Matrix \<Rightarrow> vec \<Rightarrow> vec \<Rightarrow> iterate \<Rightarrow> iterate \<Rightarrow> real \<Rightarrow> real \<Rightarrow> real
                    \<Rightarrow> real"

text \<open>The equilibrated problem data the loop works on, with the two norms taken once.\<close>

record Problem =
  pQ :: Matrix
  pA :: Matrix
  pb :: vec
  pc :: vec
  bNrm2 :: real
  cNrm2 :: real

subsection \<open>The convergence measures\<close>

text \<open>
  The variants of the driver share the loop line for line; they differ in how \<open>Q\<close> is
  applied: \<open>Hemv( LOWER, \<dots> )\<close> for dense storage, \<open>Multiply( NORMAL, \<dots> )\<close> for
  sparse storage. The measures take that operation as their first argument.
\<close>

type_synonym applyQ = "real \<Rightarrow> Matrix \<Rightarrow> vec \<Rightarrow> real \<Rightarrow> vec \<Rightarrow> vec"

definition primObj :: "applyQ \<Rightarrow> Problem \<Rightarrow> iterate \<Rightarrow> real" where
  "primObj mulQ P s = (case s of (x, y, z) \<Rightarrow>
     let d = mulQ 1 (pQ P) x 0 (Zeros (Width (pA P)));
         xTQx = Dot x d
     in xTQx / 2 + Dot (pc P) x)"

definition dualObj :: "applyQ \<Rightarrow> Problem \<Rightarrow> iterate \<Rightarrow> real" where
  "dualObj mulQ P s = (case s of (x, y, z) \<Rightarrow>
     let d = mulQ 1 (pQ P) x 0 (Zeros (Width (pA P)));
         xTQx = Dot x d
     in - xTQx / 2 - Dot (pb P) y)"

definition objConv :: "applyQ \<Rightarrow> Problem \<Rightarrow> iterate \<Rightarrow> real" where
  "objConv mulQ P s = \<bar>primObj mulQ P s - dualObj mulQ P s\<bar> / (1 + \<bar>primObj mulQ P s\<bar>)"

text \<open>\<open>rb = b; Scale( -1, rb ); Gemv( NORMAL, 1, A, x, 1, rb )\<close>.\<close>

definition rb_of :: "Problem \<Rightarrow> iterate \<Rightarrow> vec" where
  "rb_of P s = (case s of (x, y, z) \<Rightarrow> GemvNormal 1 (pA P) x 1 (Scale (- 1) (pb P)))"

definition rbConv :: "Problem \<Rightarrow> iterate \<Rightarrow> real" where
  "rbConv P s = Nrm2 (rb_of P s) / (1 + bNrm2 P)"

text \<open>
  \<open>rc = c; Hemv( LOWER, 1, Q, x, 1, rc ); Gemv( TRANSPOSE, 1, A, y, 1, rc );
  Axpy( -1, z, rc )\<close>.
\<close>

definition rc_of :: "applyQ \<Rightarrow> Problem \<Rightarrow> iterate \<Rightarrow> vec" where
  "rc_of mulQ P s = (case s of (x, y, z) \<Rightarrow>
     Axpy (- 1) z (GemvTranspose 1 (pA P) y 1 (mulQ 1 (pQ P) x 1 (pc P))))"

definition rcConv :: "applyQ \<Rightarrow> Problem \<Rightarrow> iterate \<Rightarrow> real" where
  "rcConv mulQ P s = Nrm2 (rc_of mulQ P s) / (1 + cNrm2 P)"

definition converged :: "applyQ \<Rightarrow> IPFCtrl \<Rightarrow> Problem \<Rightarrow> iterate \<Rightarrow> bool" where
  "converged mulQ ctrl P s \<longleftrightarrow>
     objConv mulQ P s \<le> tol ctrl \<and> rbConv P s \<le> tol ctrl \<and> rcConv mulQ P s \<le> tol ctrl"

subsection \<open>One pass through the loop body\<close>

datatype 's outcome = Break | Throw error | Continue 's

text \<open>\<open>rmu = z; DiagonalScale( LEFT, NORMAL, x, rmu ); Shift( rmu, -ctrl.centering*mu )\<close>.\<close>

definition rmu_of :: "IPFCtrl \<Rightarrow> Problem \<Rightarrow> iterate \<Rightarrow> vec" where
  "rmu_of ctrl P s = (case s of (x, y, z) \<Rightarrow>
     let mu = Dot x z / real (Width (pA P))
     in Shift (DiagonalScale x z) (- centering ctrl * mu))"

text \<open>The direction, for the two supported systems; any other choice is a \<open>LogicError\<close>.\<close>

definition direction :: "Collaborators \<Rightarrow> IPFCtrl \<Rightarrow> Problem \<Rightarrow> iterate \<Rightarrow> iterate option" where
  "direction E ctrl P s = (case s of (x, y, z) \<Rightarrow>
     if system ctrl = FULL_KKT then
       Some (FullKKTStep E (pQ P) (pA P) x z (rc_of HemvLower P s) (rb_of P s) (rmu_of ctrl P s))
     else if system ctrl = AUGMENTED_KKT then
       Some (AugmentedKKTStep E (pQ P) (pA P) x z (rc_of HemvLower P s) (rb_of P s)
               (rmu_of ctrl P s))
     else None)"

text \<open>The bound handed to the line search: \<open>Real(0.99)*alphaMax\<close>.\<close>

definition alphaPrimal :: "iterate \<Rightarrow> iterate \<Rightarrow> real" where
  "alphaPrimal s d = (case (s, d) of ((x, y, z), (dx, dy, dz)) \<Rightarrow> MaxStepInPositiveCone x dx 1)"

definition alphaDual :: "iterate \<Rightarrow> iterate \<Rightarrow> real" where
  "alphaDual s d = (case (s, d) of ((x, y, z), (dx, dy, dz)) \<Rightarrow> MaxStepInPositiveCone z dz 1)"

definition stepBound :: "iterate \<Rightarrow> iterate \<Rightarrow> real" where
  "stepBound s d = (let alphaMax = min (alphaPrimal s d) (alphaDual s d) in (99 / 100) * alphaMax)"

type_synonym lineSearch =
  "Matrix \<Rightarrow> Matrix \<Rightarrow> vec \<Rightarrow> vec \<Rightarrow> iterate \<Rightarrow> iterate \<Rightarrow> real \<Rightarrow> real \<Rightarrow> real \<Rightarrow> real"

definition lineSearchAlpha :: "lineSearch \<Rightarrow> IPFCtrl \<Rightarrow> Problem \<Rightarrow> iterate \<Rightarrow> iterate \<Rightarrow> real" where
  "lineSearchAlpha search ctrl P s d =
     search (pQ P) (pA P) (pb P) (pc P) s d (stepBound s d)
       (tol ctrl * (1 + bNrm2 P)) (tol ctrl * (1 + cNrm2 P))"

definition takeStep :: "real \<Rightarrow> iterate \<Rightarrow> iterate \<Rightarrow> iterate" where
  "takeStep alpha d s = (case (s, d) of ((x, y, z), (dx, dy, dz)) \<Rightarrow>
     (Axpy alpha dx x, Axpy alpha dy y, Axpy alpha dz z))"

definition IPF_body :: "Collaborators \<Rightarrow> IPFCtrl \<Rightarrow> Problem \<Rightarrow> int \<Rightarrow> iterate \<Rightarrow> iterate outcome" where
  "IPF_body E ctrl P numIts s = (case s of (x, y, z) \<Rightarrow>
     let xNumNonPos = NumNonPositive x;
         zNumNonPos = NumNonPositive z
     in if xNumNonPos > 0 \<or> zNumNonPos > 0 then Throw (NonPositiveEntries xNumNonPos zNumNonPos)
        else if converged HemvLower ctrl P s then Break
        else if numIts = maxIts ctrl then Throw (MaxItsExceeded (maxIts ctrl))
        else (case direction E ctrl P s of
                None \<Rightarrow> Throw InvalidKKTSystem
              | Some d \<Rightarrow> Continue (takeStep (lineSearchAlpha (IPFLineSearch E) ctrl P s d) d s)))"

subsection \<open>The loop and the driver\<close>

text \<open>
  \<open>for( Int numIts=0; ; ++numIts )\<close> has no bound of its own, so the loop is a partial
  function: \<open>None\<close> stands for a run that never leaves it. An exception leaves the
  caller's \<open>x, y, z\<close> (they are updated in place) as they were when it was raised, so the
  error is paired with that iterate.
\<close>

type_synonym result = "(error \<times> iterate) + iterate"

partial_function (option) IPF_loop ::
  "Collaborators \<Rightarrow> IPFCtrl \<Rightarrow> Problem \<Rightarrow> int \<Rightarrow> iterate \<Rightarrow> result option" where
  "IPF_loop E ctrl P numIts s =
     (case IPF_body E ctrl P numIts s of
        Break \<Rightarrow> Some (Inr s)
      | Throw e \<Rightarrow> Some (Inl (e, s))
      | Continue s' \<Rightarrow> IPF_loop E ctrl P (numIts + 1) s')"

text \<open>
  Equilibration is switched off by the constant \<open>allowEquil = false\<close>, so both scalings are
  all-ones; they are still applied on the way in and on the way out. The final
  unequilibration is only reached when the loop is left by \<open>break\<close>.
\<close>

definition equilibrate :: "Matrix \<Rightarrow> Matrix \<Rightarrow> vec \<Rightarrow> vec \<Rightarrow> Problem" where
  "equilibrate QPre APre bPre cPre =
     (let dRow = Ones (Height APre);
          dCol = Ones (Width APre);
          b = DiagonalSolve dRow bPre;
          c = DiagonalSolve dCol cPre;
          Q = DiagonalSolveRight dCol (DiagonalSolveLeft dCol QPre)
      in \<lparr>pQ = Q, pA = APre, pb = b, pc = c, bNrm2 = Nrm2 b, cNrm2 = Nrm2 c\<rparr>)"

definition IPF ::
  "Collaborators \<Rightarrow> Matrix \<Rightarrow> Matrix \<Rightarrow> vec \<Rightarrow> vec \<Rightarrow> iterate \<Rightarrow> IPFCtrl \<Rightarrow> result option" where
  "IPF E QPre APre bPre cPre s ctrl = (case s of (x, y, z) \<Rightarrow>
     let dRow = Ones (Height APre);
         dCol = Ones (Width APre);
         P = equilibrate QPre APre bPre cPre;
         x1 = (if primalInitialized ctrl then DiagonalScale dCol x else x);
         y1 = (if dualInitialized ctrl then DiagonalScale dRow y else y);
         z1 = (if dualInitialized ctrl then DiagonalSolve dCol z else z);
         s0 = Initialize E (pQ P) (pA P) (pb P) (pc P) (x1, y1, z1)
                (primalInitialized ctrl) (dualInitialized ctrl) True
     in case IPF_loop E ctrl P 0 s0 of
          None \<Rightarrow> None
        | Some (Inl failure) \<Rightarrow> Some (Inl failure)
        | Some (Inr (xf, yf, zf)) \<Rightarrow>
            Some (Inr ((DiagonalSolve dCol xf, DiagonalSolve dRow yf, DiagonalScale dCol zf))))"

section \<open>The sparse variants of \<open>qp::direct::IPF\<close> and their regularization\<close>

text \<open>
  The sequential sparse and the distributed sparse variants carry, besides the iterate,
  the candidate regularization \<open>regCand\<close>, the flag \<open>increasedReg\<close> and the metadata of
  the factorization (\<open>map\<close>, \<open>invMap\<close>, \<open>rootSep\<close>, \<open>info\<close>), which stays abstract here.
\<close>

record 'm SparseState =
  current :: iterate
  regCand :: vec
  increasedReg :: bool
  metadata :: 'm

text \<open>
  The collaborators of the sparse loop. A solve stands for the whole delegated sequence
  (assembly of \<open>J\<close> and \<open>d\<close>, the nested dissection when its flag is set, the pulls of
  \<open>J\<close>, \<open>regCand\<close> and \<open>reg\<close> into the tree, \<open>RegularizedQSDLDL\<close>, the push of \<open>reg\<close>,
  \<open>reg_qsd_ldl::SolveAfter\<close> and the expansion of the solution); it only reads
  \<open>regCand\<close> and yields the number of large refinements, the direction and the metadata.
\<close>

record 'm SparseCollaborators =
  SparseInitialize ::
    "Matrix \<Rightarrow> Matrix \<Rightarrow> vec \<Rightarrow> vec \<Rightarrow> iterate \<Rightarrow> bool \<Rightarrow> bool \<Rightarrow> bool \<Rightarrow> iterate \<times> 'm"
  FullKKTSolve ::
    "bool \<Rightarrow> Matrix \<Rightarrow> Matrix \<Rightarrow> vec \<Rightarrow> vec \<Rightarrow> vec \<Rightarrow> vec \<Rightarrow> vec \<Rightarrow> vec \<Rightarrow> 'm
       \<Rightarrow> int \<times> iterate \<times> 'm"
  AugmentedKKTSolve ::
    "bool \<Rightarrow> Matrix \<Rightarrow> Matrix \<Rightarrow> vec \<Rightarrow> vec \<Rightarrow> vec \<Rightarrow> vec \<Rightarrow> vec \<Rightarrow> vec \<Rightarrow> 'm
       \<Rightarrow> int \<times> iterate \<times> 'm"
  SparseLineSearch :: lineSearch

text \<open>
  The a priori candidate: \<open>Pow(epsilon,0.75)\<close> on the primal block, minus
  \<open>Pow(epsilon,0.5)\<close> on the Lagrange block and, for the full system of size \<open>m+2n\<close>, on
  the dual block. For any other system choice \<open>regCand\<close> stays empty.
\<close>

definition initialRegCand :: "KKTSystem \<Rightarrow> nat \<Rightarrow> nat \<Rightarrow> real \<Rightarrow> vec" where
  "initialRegCand sys m n epsilon =
     (if sys = FULL_KKT then
        (let regMagPrimal = epsilon powr (3 / 4);
             regMagLagrange = epsilon powr (1 / 2);
             regMagDual = epsilon powr (1 / 2)
         in map (\<lambda>i. if i < n then regMagPrimal
                      else if i < n + m then - regMagLagrange
                      else - regMagDual) [0..<m + 2 * n])
      else if sys = AUGMENTED_KKT then
        (let regMagPrimal = epsilon powr (3 / 4);
             regMagLagrange = epsilon powr (1 / 2)
         in map (\<lambda>i. if i < n then regMagPrimal else - regMagLagrange) [0..<n + m])
      else [])"

text \<open>
  The distributed variant fills the rows a process owns, each from its global index
  \<open>GlobalRow(iLoc)\<close>; the distribution (\<open>LocalHeight\<close>, \<open>GlobalRow\<close>) is given.
\<close>

definition initialRegCandLocal ::
  "KKTSystem \<Rightarrow> nat \<Rightarrow> nat \<Rightarrow> real \<Rightarrow> nat \<Rightarrow> (nat \<Rightarrow> nat) \<Rightarrow> vec" where
  "initialRegCandLocal sys m n epsilon localHeight globalRow =
     (if sys = FULL_KKT then
        (let regMagPrimal = epsilon powr (3 / 4);
             regMagLagrange = epsilon powr (1 / 2);
             regMagDual = epsilon powr (1 / 2)
         in map (\<lambda>iLoc. let i = globalRow iLoc
                         in if i < n then regMagPrimal
                            else if i < n + m then - regMagLagrange
                            else - regMagDual) [0..<localHeight])
      else if sys = AUGMENTED_KKT then
        (let regMagPrimal = epsilon powr (3 / 4);
             regMagLagrange = epsilon powr (1 / 2)
         in map (\<lambda>iLoc. let i = globalRow iLoc
                         in if i < n then regMagPrimal else - regMagLagrange) [0..<localHeight])
      else [])"

text \<open>The delegated solve of one iteration, for the configured system.\<close>

definition sparseSolve ::
  "'m SparseCollaborators \<Rightarrow> IPFCtrl \<Rightarrow> Problem \<Rightarrow> int \<Rightarrow> 'm SparseState
     \<Rightarrow> (int \<times> iterate \<times> 'm) option" where
  "sparseSolve E ctrl P numIts st = (case current st of (x, y, z) \<Rightarrow>
     if system ctrl = FULL_KKT then
       Some (FullKKTSolve E (numIts = 0) (pQ P) (pA P) x z
               (rc_of GemvNormal P (current st)) (rb_of P (current st))
               (rmu_of ctrl P (current st)) (regCand st) (metadata st))
     else if system ctrl = AUGMENTED_KKT then
       Some (AugmentedKKTSolve E
               (primalInitialized ctrl \<and> dualInitialized ctrl \<and> numIts = 0) (pQ P) (pA P) x z
               (rc_of GemvNormal P (current st)) (rb_of P (current st))
               (rmu_of ctrl P (current st)) (regCand st) (metadata st))
     else None)"

text \<open>
  \<open>if( numLargeRefines > 3 && !increasedReg ) { Scale( Real(10), regCand );
  increasedReg = true; }\<close>
\<close>

definition escalate :: "int \<Rightarrow> 'm SparseState \<Rightarrow> 'm SparseState" where
  "escalate numLargeRefines st =
     (if numLargeRefines > 3 \<and> \<not> increasedReg st
      then st\<lparr>regCand := Scale 10 (regCand st), increasedReg := True\<rparr>
      else st)"

definition IPF_sparse_body ::
  "'m SparseCollaborators \<Rightarrow> IPFCtrl \<Rightarrow> Problem \<Rightarrow> int \<Rightarrow> 'm SparseState
     \<Rightarrow> 'm SparseState outcome" where
  "IPF_sparse_body E ctrl P numIts st = (case current st of (x, y, z) \<Rightarrow>
     let xNumNonPos = NumNonPositive x;
         zNumNonPos = NumNonPositive z
     in if xNumNonPos > 0 \<or> zNumNonPos > 0 then Throw (NonPositiveEntries xNumNonPos zNumNonPos)
        else if converged GemvNormal ctrl P (current st) then Break
        else if numIts = maxIts ctrl then Throw (MaxItsExceeded (maxIts ctrl))
        else (case sparseSolve E ctrl P numIts st of
                None \<Rightarrow> Throw InvalidKKTSystem
              | Some (numLargeRefines, d, meta) \<Rightarrow>
                  let st1 = escalate numLargeRefines (st\<lparr>metadata := meta\<rparr>);
                      alpha = lineSearchAlpha (SparseLineSearch E) ctrl P (current st) d
                  in Continue (st1\<lparr>current := takeStep alpha d (current st)\<rparr>)))"

partial_function (option) IPF_sparse_loop ::
  "'m SparseCollaborators \<Rightarrow> IPFCtrl \<Rightarrow> Problem \<Rightarrow> int \<Rightarrow> 'm SparseState
     \<Rightarrow> ((error \<times> 'm SparseState) + 'm SparseState) option" where
  "IPF_sparse_loop E ctrl P numIts st =
     (case IPF_sparse_body E ctrl P numIts st of
        Break \<Rightarrow> Some (Inr st)
      | Throw e \<Rightarrow> Some (Inl (e, st))
      | Continue st' \<Rightarrow> IPF_sparse_loop E ctrl P (numIts + 1) st')"

text \<open>
  The state the sparse loop starts from. The initialisation works on an augmented system,
  so its metadata is kept only when the driver uses the augmented formulation; otherwise
  the loop starts from default-constructed metadata \<open>meta0\<close>.
\<close>

definition IPF_sparse_start ::
  "'m SparseCollaborators \<Rightarrow> 'm \<Rightarrow> real \<Rightarrow> Matrix \<Rightarrow> Matrix \<Rightarrow> vec \<Rightarrow> vec \<Rightarrow> iterate \<Rightarrow> IPFCtrl
     \<Rightarrow> 'm SparseState" where
  "IPF_sparse_start E meta0 epsilon QPre APre bPre cPre s ctrl = (case s of (x, y, z) \<Rightarrow>
     let dRow = Ones (Height APre);
         dCol = Ones (Width APre);
         P = equilibrate QPre APre bPre cPre;
         x1 = (if primalInitialized ctrl then DiagonalScale dCol x else x);
         y1 = (if dualInitialized ctrl then DiagonalScale dRow y else y);
         z1 = (if dualInitialized ctrl then DiagonalSolve dCol z else z);
         init = SparseInitialize E (pQ P) (pA P) (pb P) (pc P) (x1, y1, z1)
                  (primalInitialized ctrl) (dualInitialized ctrl) True
     in \<lparr>current = fst init,
         regCand = initialRegCand (system ctrl) (Height APre) (Width APre) epsilon,
         increasedReg = False,
         metadata = (if system ctrl = AUGMENTED_KKT then snd init else meta0)\<rparr>)"

definition IPF_sparse ::
  "'m SparseCollaborators \<Rightarrow> 'm \<Rightarrow> real \<Rightarrow> Matrix \<Rightarrow> Matrix \<Rightarrow> vec \<Rightarrow> vec \<Rightarrow> iterate \<Rightarrow> IPFCtrl
     \<Rightarrow> result option" where
  "IPF_sparse E meta0 epsilon QPre APre bPre cPre s ctrl =
     (let dRow = Ones (Height APre);
          dCol = Ones (Width APre);
          P = equilibrate QPre APre bPre cPre
      in case IPF_sparse_loop E ctrl P 0
                (IPF_sparse_start E meta0 epsilon QPre APre bPre cPre s ctrl) of
           None \<Rightarrow> None
         | Some (Inl (e, st)) \<Rightarrow> Some (Inl (e, current st))
         | Some (Inr st) \<Rightarrow> (case current st of (xf, yf, zf) \<Rightarrow>
             Some (Inr ((DiagonalSolve dCol xf, DiagonalSolve dRow yf, DiagonalScale dCol zf)))))"

text \<open>
  The states a call passes through: \<open>follows E ctrl P (k, st) (k', st')\<close> holds when the
  loop, entered at iteration \<open>k\<close> with state \<open>st\<close>, reaches the top of iteration \<open>k'\<close> with
  state \<open>st'\<close>.
\<close>

inductive follows ::
  "'m SparseCollaborators \<Rightarrow> IPFCtrl \<Rightarrow> Problem \<Rightarrow> int \<times> 'm SparseState
     \<Rightarrow> int \<times> 'm SparseState \<Rightarrow> bool"
  for E :: "'m SparseCollaborators" and ctrl :: IPFCtrl and P :: Problem
  where
    here: "follows E ctrl P (k, st) (k, st)"
  | later: "follows E ctrl P (k, st) (k', st') \<Longrightarrow>
            IPF_sparse_body E ctrl P k' st' = Continue st'' \<Longrightarrow>
            follows E ctrl P (k, st) (k' + 1, st'')"

section \<open>The dual residual as the specification words it\<close>

text \<open>
  The specification writes the dual residual as \<open>Q x + A\<^sup>T y - z - c\<close>. This second
  definition follows those words, for comparison with \<open>rc_of\<close>, which follows the code.
\<close>

definition rc_spec :: "applyQ \<Rightarrow> Problem \<Rightarrow> iterate \<Rightarrow> vec" where
  "rc_spec mulQ P s = (case s of (x, y, z) \<Rightarrow>
     Axpy (- 1) (pc P) (Axpy (- 1) z
       (GemvTranspose 1 (pA P) y 1 (mulQ 1 (pQ P) x 0 (Zeros (Width (pA P)))))))"

definition rcConv_spec :: "applyQ \<Rightarrow> Problem \<Rightarrow> iterate \<Rightarrow> real" where
  "rcConv_spec mulQ P s = Nrm2 (rc_spec mulQ P s) / (1 + cNrm2 P)"

section \<open>A one-variable instance\<close>

text \<open>
  The program \<open>min x\<close> subject to \<open>x = 1, x \<ge> 0\<close> (\<open>Q = 0\<close>, \<open>A = 1\<close>, \<open>b = 1\<close>,
  \<open>c = 1\<close>), with collaborators that are exact for one variable and one constraint: the
  Newton direction of the full system, solved by substitution, and a line search that
  accepts the whole bound it is given.
\<close>

definition exampleQ :: Matrix where
  "exampleQ = \<lparr>Height = 1, Width = 1, Get = (\<lambda>i j. 0)\<rparr>"

definition exampleA :: Matrix where
  "exampleA = \<lparr>Height = 1, Width = 1, Get = (\<lambda>i j. 1)\<rparr>"

definition exampleProblem :: Problem where
  "exampleProblem = equilibrate exampleQ exampleA [1] [1]"

definition exampleCtrl :: "real \<Rightarrow> int \<Rightarrow> IPFCtrl" where
  "exampleCtrl t k = \<lparr>primalInitialized = True, dualInitialized = True, tol = t, maxIts = k,
     centering = 1 / 2, system = FULL_KKT\<rparr>"

definition scalarNewton :: "Matrix \<Rightarrow> Matrix \<Rightarrow> vec \<Rightarrow> vec \<Rightarrow> vec \<Rightarrow> vec \<Rightarrow> vec \<Rightarrow> iterate" where
  "scalarNewton Q A x z rc rb rmu =
     (let dx = - hd rb / Get A 0 0;
          dz = (- hd rmu - hd z * dx) / hd x;
          dy = (- hd rc - Get Q 0 0 * dx + dz) / Get A 0 0
      in ([dx], [dy], [dz]))"

definition scalarCollaborators :: Collaborators where
  "scalarCollaborators =
     \<lparr>Initialize = (\<lambda>Q A b c s primalInit dualInit standardShift. s),
      FullKKTStep = scalarNewton,
      AugmentedKKTStep = scalarNewton,
      IPFLineSearch = (\<lambda>Q A b c s d upperBound bTol cTol. upperBound)\<rparr>"

text \<open>
  The same instance for the sparse loop: the solve reports a fixed number of large
  refinements at every iteration.
\<close>

definition scalarSparseCollaborators :: "int \<Rightarrow> unit SparseCollaborators" where
  "scalarSparseCollaborators refinements =
     \<lparr>SparseInitialize = (\<lambda>Q A b c s primalInit dualInit standardShift. (s, ())),
      FullKKTSolve = (\<lambda>dissect Q A x z rc rb rmu cand meta.
                        (refinements, scalarNewton Q A x z rc rb rmu, meta)),
      AugmentedKKTSolve = (\<lambda>dissect Q A x z rc rb rmu cand meta.
                        (refinements, scalarNewton Q A x z rc rb rmu, meta)),
      SparseLineSearch = (\<lambda>Q A b c s d upperBound bTol cTol. upperBound)\<rparr>"

definition exampleState :: "unit SparseState" where
  "exampleState = \<lparr>current = ([1], [0], [1]), regCand = [2, - 3], increasedReg = False,
     metadata = ()\<rparr>"

definition exampleNext :: "unit SparseState" where
  "exampleNext = \<lparr>current = ([1], [- (99 / 200)], [101 / 200]), regCand = [20, - 30],
     increasedReg = True, metadata = ()\<rparr>"

section \<open>The nodal multi-vector \<open>DistNodalMultiVec\<close>\<close>

text \<open>
  The program is SPMD: every process holds its own part of each distributed object. A
  distributed object is modelled by the list of its per-process parts, indexed by rank,
  and a collective operation by a function on such lists.
\<close>

subsection \<open>The metadata of the elimination tree\<close>

record SymmNodeInfo =
  nodeSize :: nat
  nodeOff :: nat

text \<open>\<open>grid.Size()\<close> and \<open>grid.VCRank()\<close> of the grid of a distributed node.\<close>

record Grid =
  gridSize :: nat
  VCRank :: nat

text \<open>
  Of a distributed node the routines read \<open>size\<close>, \<open>off\<close>, \<open>grid\<close> and
  \<open>multiVecMeta.localSize\<close>.
\<close>

record DistSymmNodeInfo =
  distSize :: nat
  distOff :: nat
  distGrid :: Grid
  localSize :: nat

record DistSymmInfo =
  infoLocalNodes :: "SymmNodeInfo list"
  infoDistNodes :: "DistSymmNodeInfo list"

text \<open>
  Modelled from the spec: \<open>Shift( rank, alignment, stride )\<close> is not among the sources;
  the spec describes the shard of a distributed node as computed by a cyclic shift over
  the size of the node's communicator.
\<close>

definition CyclicShift :: "nat \<Rightarrow> nat \<Rightarrow> nat \<Rightarrow> nat" where
  "CyclicShift rank alignment stride = (rank + stride - alignment) mod stride"

text \<open>
  \<open>for( Int t=shift; t<n; t+=stride )\<close>: the values \<open>t\<close> takes, in order, for a positive
  stride.
\<close>

definition strided :: "nat \<Rightarrow> nat \<Rightarrow> nat \<Rightarrow> nat list" where
  "strided shift n stride = filter (\<lambda>t. shift \<le> t \<and> (t - shift) mod stride = 0) [0..<n]"

subsection \<open>The containers\<close>

text \<open>A \<open>Matrix<T>\<close> kept by rows, with the dimensions it was resized to.\<close>

type_synonym rows = "real list list"

record Dense =
  denseHeight :: nat
  denseWidth :: nat
  denseRows :: rows

text \<open>
  The part of a \<open>DistMatrix<T,VC,STAR>\<close> a process holds: the global height, the column
  shift and stride of its rows, and its local rows.
\<close>

record DistNode =
  nodeHeight :: nat
  ColShift :: nat
  ColStride :: nat
  nodeLocal :: rows

record DistNodalMultiVec =
  nodalHeight :: nat
  nodalWidth :: nat
  localNodes :: "Dense list"
  distNodes :: "DistNode list"

text \<open>
  The part of a \<open>DistMultiVec<T>\<close> a process holds: the global dimensions, the size of the
  communicator, the owner of each global row, the first row this process owns, and the
  rows it owns.
\<close>

record DistMultiVec =
  mvHeight :: nat
  mvWidth :: nat
  mvCommSize :: nat
  mvRowOwner :: "nat \<Rightarrow> nat"
  mvFirstLocalRow :: nat
  mvLocal :: rows

datatype nodal_error =
    MappedIndsFilledIncorrectly
  | UnpackedWrongNumber
  | NumRecvIndsNotLocalHeight
  | NoRootNode
  | OutOfBounds

subsection \<open>The small operations of the container\<close>

text \<open>The default constructor: no nodes, height and width zero.\<close>

definition emptyNodal :: DistNodalMultiVec where
  "emptyNodal = \<lparr>nodalHeight = 0, nodalWidth = 0, localNodes = [], distNodes = []\<rparr>"

definition NodalHeight :: "DistNodalMultiVec \<Rightarrow> nat" where
  "NodalHeight V = nodalHeight V"

definition NodalWidth :: "DistNodalMultiVec \<Rightarrow> nat" where
  "NodalWidth V = nodalWidth V"

definition LocalHeight :: "DistNodalMultiVec \<Rightarrow> nat" where
  "LocalHeight V =
     fold (\<lambda>node localHeight. localHeight + length (nodeLocal node)) (distNodes V)
       (fold (\<lambda>node localHeight. localHeight + denseHeight node) (localNodes V) 0)"

definition UpdateHeight :: "DistNodalMultiVec \<Rightarrow> DistNodalMultiVec" where
  "UpdateHeight V =
     V\<lparr>nodalHeight :=
         fold (\<lambda>node h. h + nodeHeight node) (distNodes V)
           (fold (\<lambda>node h. h + denseHeight node) (localNodes V) 0)\<rparr>"

text \<open>
  \<open>width_ = localNodes[0].Width()\<close>: the first local node is read without a test that
  there is one; reading element \<open>0\<close> of an empty vector is out of bounds.
\<close>

definition UpdateWidth :: "DistNodalMultiVec \<Rightarrow> nodal_error + DistNodalMultiVec" where
  "UpdateWidth V =
     (case localNodes V of
        [] \<Rightarrow> Inl OutOfBounds
      | node # rest \<Rightarrow> Inr (V\<lparr>nodalWidth := denseWidth node\<rparr>))"

subsection \<open>Counting, prefix sums and the exchanges\<close>

text \<open>\<open>Scan( sizes, offs )\<close>: the exclusive prefix sums, and the total as its value.\<close>

fun scanFrom :: "nat \<Rightarrow> nat list \<Rightarrow> nat list" where
  "scanFrom acc [] = []"
| "scanFrom acc (c # cs) = acc # scanFrom (acc + c) cs"

definition Scan :: "nat list \<Rightarrow> nat list \<times> nat" where
  "Scan sizes = (scanFrom 0 sizes, sum_list sizes)"

text \<open>\<open>for( s < n ) ++sizes[ X.RowOwner( mappedInds[s] ) ]\<close>, from all zeros.\<close>

definition countOwners :: "nat \<Rightarrow> (nat \<Rightarrow> nat) \<Rightarrow> nat list \<Rightarrow> nat list" where
  "countOwners commSize owner inds =
     fold (\<lambda>i sizes. sizes[owner i := sizes ! owner i + 1]) inds (replicate commSize 0)"

text \<open>
  \<open>AllToAll( sizes, 1, \<dots> )\<close>: process \<open>p\<close> receives from each \<open>q\<close> the entry \<open>q\<close> holds
  for \<open>p\<close>.
\<close>

definition AllToAllSizes :: "nat list list \<Rightarrow> nat list list" where
  "AllToAllSizes sizes =
     map (\<lambda>p. map (\<lambda>q. sizes ! q ! p) [0..<length sizes]) [0..<length sizes]"

definition slice :: "'a list \<Rightarrow> nat \<Rightarrow> nat \<Rightarrow> 'a list" where
  "slice xs off n = take n (drop off xs)"

definition writeAt :: "'a list \<Rightarrow> nat \<Rightarrow> 'a list \<Rightarrow> 'a list" where
  "writeAt buf off xs = take off buf @ xs @ drop (off + length xs) buf"

text \<open>
  The exchange with counts and offsets: process \<open>p\<close> receives from each \<open>q\<close> the
  \<open>sendSizes q ! p\<close> entries of \<open>q\<close>'s send buffer that start at \<open>sendOffs q ! p\<close>, and
  stores them from \<open>recvOffs p ! q\<close> on in its receive buffer.
\<close>

definition AllToAllv ::
  "'a list list \<Rightarrow> nat list list \<Rightarrow> nat list list \<Rightarrow> 'a list list \<Rightarrow> nat list list
     \<Rightarrow> 'a list list" where
  "AllToAllv sendBufs sendSizes sendOffs recvBufs recvOffs =
     map (\<lambda>p. fold (\<lambda>q buf. writeAt buf (recvOffs ! p ! q)
                               (slice (sendBufs ! q) (sendOffs ! q ! p) (sendSizes ! q ! p)))
                [0..<length sendBufs] (recvBufs ! p))
       [0..<length sendBufs]"

subsection \<open>The indices a process asks for\<close>

text \<open>
  The walk over the local nodes and then over the distributed nodes from the second on
  (\<open>s = 1\<close>), in the natural ordering of the tree.
\<close>

definition localInds :: "SymmNodeInfo list \<Rightarrow> nat list" where
  "localInds nodes = concat (map (\<lambda>node. map (\<lambda>t. nodeOff node + t) [0..<nodeSize node]) nodes)"

definition pullNaturalInds :: "DistSymmInfo \<Rightarrow> nat list" where
  "pullNaturalInds info =
     localInds (infoLocalNodes info) @
     concat (map (\<lambda>node.
               let gridSize = gridSize (distGrid node);
                   gridRank = VCRank (distGrid node);
                   alignment = 0;
                   shift = CyclicShift gridRank alignment gridSize
               in map (\<lambda>t. distOff node + t) (strided shift (distSize node) gridSize))
            (tl (infoDistNodes info)))"

definition numRecvIndsOf :: "DistSymmInfo \<Rightarrow> nat" where
  "numRecvIndsOf info =
     sum_list (map nodeSize (infoLocalNodes info)) +
     sum_list (map localSize (tl (infoDistNodes info)))"

text \<open>\<open>recvInds[ offs[X.RowOwner(i)]++ ] = i\<close> over the mapped indices.\<close>

definition fillInds :: "(nat \<Rightarrow> nat) \<Rightarrow> nat list \<Rightarrow> nat list \<Rightarrow> nat \<Rightarrow> nat list" where
  "fillInds owner inds offs n =
     fst (fold (\<lambda>i (buf, offs). (buf[offs ! owner i := i], offs[owner i := offs ! owner i + 1]))
            inds (replicate n 0, offs))"

subsection \<open>\<open>Pull\<close>\<close>

text \<open>The values a process sends back: \<open>sendVals[s*width+j] = X.GetLocal( sendInds[s]-firstLocalRow, j )\<close>.\<close>

definition fulfil :: "DistMultiVec \<Rightarrow> nat list \<Rightarrow> real list" where
  "fulfil X sendInds =
     concat (map (\<lambda>s. map (\<lambda>j. mvLocal X ! (sendInds ! s - mvFirstLocalRow X) ! j)
                         [0..<mvWidth X])
               [0..<length sendInds])"

text \<open>
  The unpacking reads, for each mapped index in the order of the walk, \<open>width\<close> values at
  the cursor of the owner of the index and advances that cursor.
\<close>

fun readRows :: "nat \<Rightarrow> (nat \<Rightarrow> nat) \<Rightarrow> real list \<Rightarrow> nat list \<Rightarrow> nat list \<Rightarrow> rows" where
  "readRows w owner recvVals [] offs = []"
| "readRows w owner recvVals (i # inds) offs =
     (let q = owner i
      in map (\<lambda>j. recvVals ! (offs ! q + j)) [0..<w]
         # readRows w owner recvVals inds (offs[q := offs ! q + w]))"

fun chunks :: "nat list \<Rightarrow> 'a list \<Rightarrow> 'a list list" where
  "chunks [] xs = []"
| "chunks (n # ns) xs = take n xs # chunks ns (drop n xs)"

definition distLocalHeights :: "DistSymmInfo \<Rightarrow> nat list" where
  "distLocalHeights info =
     map (\<lambda>node. length (strided (CyclicShift (VCRank (distGrid node)) 0 (gridSize (distGrid node)))
                           (distSize node) (gridSize (distGrid node))))
       (tl (infoDistNodes info))"

definition buildNodal :: "DistSymmInfo \<Rightarrow> nat \<Rightarrow> nat \<Rightarrow> rows \<Rightarrow> DistNodalMultiVec" where
  "buildNodal info h w allRows =
     (let localSizes = map nodeSize (infoLocalNodes info);
          blocks = chunks (localSizes @ distLocalHeights info) allRows;
          numLocal = length (infoLocalNodes info)
      in \<lparr>nodalHeight = h, nodalWidth = w,
          localNodes = map2 (\<lambda>node block. \<lparr>denseHeight = nodeSize node, denseWidth = w,
                                             denseRows = block\<rparr>)
                         (infoLocalNodes info) (take numLocal blocks),
          distNodes = map2 (\<lambda>node block.
                              \<lparr>nodeHeight = distSize node,
                               ColShift = CyclicShift (VCRank (distGrid node)) 0
                                            (gridSize (distGrid node)),
                               ColStride = gridSize (distGrid node),
                               nodeLocal = block\<rparr>)
                        (tl (infoDistNodes info)) (drop numLocal blocks)\<rparr>)"

text \<open>
  \<open>Pull\<close> is collective. \<open>inverseMap.Translate\<close> replaces every index by its image; the
  two \<open>DEBUG_ONLY\<close> tests are kept as errors.
\<close>

definition Pull ::
  "(nat \<Rightarrow> nat) \<Rightarrow> DistSymmInfo list \<Rightarrow> DistMultiVec list
     \<Rightarrow> nodal_error + DistNodalMultiVec list" where
  "Pull inverseMap infos Xs =
     (let ranks = [0..<length Xs];
          width = (\<lambda>p. mvWidth (Xs ! p));
          owner = (\<lambda>p. mvRowOwner (Xs ! p));
          numRecvInds = (\<lambda>p. numRecvIndsOf (infos ! p))
      in if \<exists>p\<in>set ranks. length (pullNaturalInds (infos ! p)) \<noteq> numRecvInds p
         then Inl MappedIndsFilledIncorrectly
         else
           (let mappedInds = (\<lambda>p. map inverseMap (pullNaturalInds (infos ! p)));
                recvSizes = map (\<lambda>p. countOwners (mvCommSize (Xs ! p)) (owner p) (mappedInds p))
                              ranks;
                recvOffs = map (\<lambda>p. fst (Scan (recvSizes ! p))) ranks;
                recvInds = map (\<lambda>p. fillInds (owner p) (mappedInds p) (recvOffs ! p)
                                        (numRecvInds p)) ranks;
                sendSizes = AllToAllSizes recvSizes;
                sendOffs = map (\<lambda>p. fst (Scan (sendSizes ! p))) ranks;
                numSendInds = (\<lambda>p. snd (Scan (sendSizes ! p)));
                sendInds = AllToAllv recvInds recvSizes recvOffs
                             (map (\<lambda>p. replicate (numSendInds p) 0) ranks) sendOffs;
                sendVals = map (\<lambda>p. fulfil (Xs ! p) (sendInds ! p)) ranks;
                scaled = (\<lambda>xss. map (\<lambda>p. map (\<lambda>c. c * width p) (xss ! p)) ranks);
                recvVals = AllToAllv sendVals (scaled sendSizes) (scaled sendOffs)
                             (map (\<lambda>p. replicate (numRecvInds p * width p) 0) ranks)
                             (scaled recvOffs);
                allRows = (\<lambda>p. readRows (width p) (owner p) (recvVals ! p) (mappedInds p)
                                   (scaled recvOffs ! p))
            in if \<exists>p\<in>set ranks. sum_list (map nodeSize (infoLocalNodes (infos ! p)))
                                     + sum_list (distLocalHeights (infos ! p)) \<noteq> numRecvInds p
               then Inl UnpackedWrongNumber
               else Inr (map (\<lambda>p. buildNodal (infos ! p) (mvHeight (Xs ! p)) (width p)
                                     (allRows p)) ranks)))"

subsection \<open>\<open>Push\<close>\<close>

text \<open>
  The indices of the walk as \<open>Push\<close> takes them: the local nodes from the metadata, the
  distributed nodes from the shift, height and stride of the nodes of the container.
\<close>

definition pushNaturalInds :: "DistSymmInfo \<Rightarrow> DistNodalMultiVec \<Rightarrow> nat list" where
  "pushNaturalInds info V =
     localInds (infoLocalNodes info) @
     concat (map2 (\<lambda>node XNode.
                     map (\<lambda>t. distOff node + t)
                       (strided (ColShift XNode) (nodeHeight XNode) (ColStride XNode)))
               (tl (infoDistNodes info)) (distNodes V))"

text \<open>\<open>std::vector<Int> mappedInds( numSendInds )\<close>, filled from the front.\<close>

definition fitTo :: "nat \<Rightarrow> nat list \<Rightarrow> nat list" where
  "fitTo n xs = take n xs @ replicate (n - length xs) 0"

text \<open>The rows of the container in the order of the walk.\<close>

definition nodalRows :: "DistSymmInfo \<Rightarrow> DistNodalMultiVec \<Rightarrow> nat \<Rightarrow> rows" where
  "nodalRows info V width =
     concat (map2 (\<lambda>node X. map (\<lambda>t. map (\<lambda>j. denseRows X ! t ! j) [0..<width])
                               [0..<nodeSize node])
               (infoLocalNodes info) (localNodes V)) @
     concat (map (\<lambda>XNode. map (\<lambda>tLoc. map (\<lambda>j. nodeLocal XNode ! tLoc ! j) [0..<width])
                             [0..<length (nodeLocal XNode)])
               (distNodes V))"

text \<open>
  \<open>sendVals[offs[q]*width+j] = \<dots>; sendInds[offs[q]++] = i\<close> over the indices and rows of
  the walk.
\<close>

definition packStep ::
  "nat \<Rightarrow> (nat \<Rightarrow> nat) \<Rightarrow> nat \<times> real list \<Rightarrow> real list \<times> nat list \<times> nat list
     \<Rightarrow> real list \<times> nat list \<times> nat list" where
  "packStep width owner item st = (case (item, st) of ((i, row), (sendVals, sendInds, offs)) \<Rightarrow>
     let q = owner i
     in (fold (\<lambda>j vals. vals[offs ! q * width + j := row ! j]) [0..<width] sendVals,
         sendInds[offs ! q := i],
         offs[q := offs ! q + 1]))"

definition pack ::
  "nat \<Rightarrow> (nat \<Rightarrow> nat) \<Rightarrow> nat list \<Rightarrow> rows \<Rightarrow> nat list \<Rightarrow> nat \<Rightarrow> real list \<times> nat list" where
  "pack width owner inds rws offs n =
     (case fold (packStep width owner) (zip inds rws)
             (replicate (n * width) 0, replicate n 0, offs) of
        (sendVals, sendInds, offs') \<Rightarrow> (sendVals, sendInds))"

text \<open>\<open>X.SetLocal( iLocal, j, recvVals[s*width+j] )\<close> for each received index.\<close>

definition SetLocal :: "rows \<Rightarrow> nat \<Rightarrow> nat \<Rightarrow> real \<Rightarrow> rows" where
  "SetLocal local iLocal j v = local[iLocal := (local ! iLocal)[j := v]]"

definition unpack :: "nat \<Rightarrow> nat \<Rightarrow> nat list \<Rightarrow> real list \<Rightarrow> rows \<Rightarrow> rows" where
  "unpack width firstLocalRow recvInds recvVals local =
     fold (\<lambda>s loc. let i = recvInds ! s;
                        iLocal = i - firstLocalRow
                    in fold (\<lambda>j l. SetLocal l iLocal j (recvVals ! (s * width + j)))
                         [0..<width] loc)
       [0..<length recvInds] local"

text \<open>
  \<open>Push\<close> is collective. \<open>X.SetComm( comm ); X.Resize( height, width )\<close> belongs to the
  vector class and is given as \<open>resize\<close>; it fixes the communicator and the dimensions
  and leaves the entries unspecified. The \<open>DEBUG_ONLY\<close> test is kept as an error, and so
  is the read of the last distributed node of an empty list.
\<close>

definition Push ::
  "(DistMultiVec \<Rightarrow> nat \<Rightarrow> nat \<Rightarrow> DistMultiVec) \<Rightarrow> (nat \<Rightarrow> nat) \<Rightarrow> DistSymmInfo list
     \<Rightarrow> DistNodalMultiVec list \<Rightarrow> DistMultiVec list \<Rightarrow> nodal_error + DistMultiVec list" where
  "Push resize inverseMap infos Vs Xs =
     (let ranks = [0..<length Xs]
      in if \<exists>p\<in>set ranks. infoDistNodes (infos ! p) = [] then Inl NoRootNode
         else
           (let rootNode = (\<lambda>p. last (infoDistNodes (infos ! p)));
                height = (\<lambda>p. distSize (rootNode p) + distOff (rootNode p));
                width = (\<lambda>p. NodalWidth (Vs ! p));
                X = (\<lambda>p. resize (Xs ! p) (height p) (width p));
                owner = (\<lambda>p. mvRowOwner (X p));
                numSendInds = (\<lambda>p. LocalHeight (Vs ! p));
                mappedInds = (\<lambda>p. map inverseMap
                                     (fitTo (numSendInds p) (pushNaturalInds (infos ! p) (Vs ! p))));
                sendSizes = map (\<lambda>p. countOwners (mvCommSize (X p)) (owner p) (mappedInds p))
                              ranks;
                sendOffs = map (\<lambda>p. fst (Scan (sendSizes ! p))) ranks;
                packed = (\<lambda>p. pack (width p) (owner p) (mappedInds p)
                                  (nodalRows (infos ! p) (Vs ! p) (width p)) (sendOffs ! p)
                                  (numSendInds p));
                sendVals = map (\<lambda>p. fst (packed p)) ranks;
                sendInds = map (\<lambda>p. snd (packed p)) ranks;
                recvSizes = AllToAllSizes sendSizes;
                recvOffs = map (\<lambda>p. fst (Scan (recvSizes ! p))) ranks;
                numRecvInds = (\<lambda>p. snd (Scan (recvSizes ! p)))
            in if \<exists>p\<in>set ranks. numRecvInds p \<noteq> length (mvLocal (X p))
               then Inl NumRecvIndsNotLocalHeight
               else
                 (let recvInds = AllToAllv sendInds sendSizes sendOffs
                                   (map (\<lambda>p. replicate (numRecvInds p) 0) ranks) recvOffs;
                      scaled = (\<lambda>xss. map (\<lambda>p. map (\<lambda>c. c * width p) (xss ! p)) ranks);
                      recvVals = AllToAllv sendVals (scaled sendSizes) (scaled sendOffs)
                                   (map (\<lambda>p. replicate (numRecvInds p * width p) 0) ranks)
                                   (scaled recvOffs)
                  in Inr (map (\<lambda>p. (X p)\<lparr>mvLocal :=
                                       unpack (width p) (mvFirstLocalRow (X p)) (recvInds ! p)
                                         (recvVals ! p) (mvLocal (X p))\<rparr>) ranks))))"

subsection \<open>The round trip: what each process asks for and what each owner holds\<close>

text \<open>
  The notions below describe the buffers of \<open>Pull\<close> and \<open>Push\<close> in closed form. The
  indices of a process are sorted into one bucket per owner, in the order of the walk;
  a buffer filled by cursors is the concatenation of the buckets.
\<close>

text \<open>The positions the cursors hand out, one per key, as a loop advances them.\<close>

fun positions :: "nat list \<Rightarrow> nat list \<Rightarrow> nat list" where
  "positions [] offs = []"
| "positions (q # qs) offs = offs ! q # positions qs (offs[q := offs ! q + 1])"

text \<open>The items a key function sends to \<open>q\<close>, the buckets of all \<open>P\<close> keys, and where each bucket starts.\<close>

definition bucket :: "('a \<Rightarrow> nat) \<Rightarrow> nat \<Rightarrow> 'a list \<Rightarrow> 'a list" where
  "bucket key q xs = filter (\<lambda>x. key x = q) xs"

definition buckets :: "nat \<Rightarrow> ('a \<Rightarrow> nat) \<Rightarrow> 'a list \<Rightarrow> 'a list list" where
  "buckets P key xs = map (\<lambda>q. bucket key q xs) [0..<P]"

definition starts :: "nat \<Rightarrow> ('a \<Rightarrow> nat) \<Rightarrow> 'a list \<Rightarrow> nat list" where
  "starts P key xs = scanFrom 0 (map length (buckets P key xs))"

text \<open>One write \<open>buf[pos] = v\<close>, and the writes of one row of \<open>w\<close> values at row position \<open>pos\<close>.\<close>

definition put :: "nat \<times> 'a \<Rightarrow> 'a list \<Rightarrow> 'a list" where
  "put pv buf = buf[fst pv := snd pv]"

definition rowWrites :: "nat \<Rightarrow> nat \<times> real list \<Rightarrow> (nat \<times> real) list" where
  "rowWrites w pr = map (\<lambda>j. (fst pr * w + j, snd pr ! j)) [0..<w]"

text \<open>
  For the index lists \<open>I p\<close> of the processes and the owner function \<open>ow\<close>: the counts,
  offsets and indices on the side of the process that walks its nodes (\<open>ask\<close>), and on
  the side of the owner of the rows (\<open>own\<close>); with the rows \<open>G i\<close> of the vector, the
  values on both sides.
\<close>

definition askSizes :: "nat \<Rightarrow> (nat \<Rightarrow> nat) \<Rightarrow> (nat \<Rightarrow> nat list) \<Rightarrow> nat list list" where
  "askSizes P ow I = map (\<lambda>p. map length (buckets P ow (I p))) [0..<P]"

definition askOffs :: "nat \<Rightarrow> (nat \<Rightarrow> nat) \<Rightarrow> (nat \<Rightarrow> nat list) \<Rightarrow> nat list list" where
  "askOffs P ow I = map (\<lambda>p. starts P ow (I p)) [0..<P]"

definition askInds :: "nat \<Rightarrow> (nat \<Rightarrow> nat) \<Rightarrow> (nat \<Rightarrow> nat list) \<Rightarrow> nat list list" where
  "askInds P ow I = map (\<lambda>p. concat (buckets P ow (I p))) [0..<P]"

definition ownSizes :: "nat \<Rightarrow> (nat \<Rightarrow> nat) \<Rightarrow> (nat \<Rightarrow> nat list) \<Rightarrow> nat list list" where
  "ownSizes P ow I = map (\<lambda>q. map (\<lambda>p. length (bucket ow q (I p))) [0..<P]) [0..<P]"

definition ownOffs :: "nat \<Rightarrow> (nat \<Rightarrow> nat) \<Rightarrow> (nat \<Rightarrow> nat list) \<Rightarrow> nat list list" where
  "ownOffs P ow I = map (\<lambda>q. scanFrom 0 (map (\<lambda>p. length (bucket ow q (I p))) [0..<P])) [0..<P]"

definition ownInds :: "nat \<Rightarrow> (nat \<Rightarrow> nat) \<Rightarrow> (nat \<Rightarrow> nat list) \<Rightarrow> nat list list" where
  "ownInds P ow I = map (\<lambda>q. concat (map (\<lambda>p. bucket ow q (I p)) [0..<P])) [0..<P]"

definition askVals ::
  "nat \<Rightarrow> (nat \<Rightarrow> nat) \<Rightarrow> (nat \<Rightarrow> nat list) \<Rightarrow> (nat \<Rightarrow> real list) \<Rightarrow> real list list" where
  "askVals P ow I G = map (\<lambda>p. concat (map G (concat (buckets P ow (I p))))) [0..<P]"

definition ownVals ::
  "nat \<Rightarrow> (nat \<Rightarrow> nat) \<Rightarrow> (nat \<Rightarrow> nat list) \<Rightarrow> (nat \<Rightarrow> real list) \<Rightarrow> real list list" where
  "ownVals P ow I G =
     map (\<lambda>q. concat (map G (concat (map (\<lambda>p. bucket ow q (I p)) [0..<P])))) [0..<P]"

text \<open>The heights of the nodes of the walk: the local nodes, then the distributed nodes from the second on.\<close>

definition walkSizes :: "DistSymmInfo \<Rightarrow> nat list" where
  "walkSizes info = map nodeSize (infoLocalNodes info) @ distLocalHeights info"

subsection \<open>Valid inputs of the round trip\<close>

text \<open>Row \<open>i\<close> of the vector, read from the process that owns it.\<close>

definition vectorRow :: "DistMultiVec list \<Rightarrow> (nat \<Rightarrow> nat) \<Rightarrow> nat \<Rightarrow> real list" where
  "vectorRow Xs ow i = mvLocal (Xs ! ow i) ! (i - mvFirstLocalRow (Xs ! ow i))"

text \<open>
  A flat vector of height \<open>N\<close> and width \<open>w\<close> over \<open>length Xs\<close> processes: all handles
  agree on the dimensions, the communicator and the owner of each row; the local rows of
  a process are global rows it owns, counted from its first local row; and every global
  row is a local row of its owner.
\<close>

definition wellDistributed :: "nat \<Rightarrow> nat \<Rightarrow> (nat \<Rightarrow> nat) \<Rightarrow> DistMultiVec list \<Rightarrow> bool" where
  "wellDistributed N w ow Xs \<longleftrightarrow>
     (\<forall>p<length Xs.
        mvHeight (Xs ! p) = N \<and> mvWidth (Xs ! p) = w \<and> mvCommSize (Xs ! p) = length Xs \<and>
        (\<forall>i<N. mvRowOwner (Xs ! p) i = ow i) \<and>
        (\<forall>r\<in>set (mvLocal (Xs ! p)). length r = w) \<and>
        (\<forall>l<length (mvLocal (Xs ! p)).
           mvFirstLocalRow (Xs ! p) + l < N \<and> ow (mvFirstLocalRow (Xs ! p) + l) = p)) \<and>
     (\<forall>i<N. ow i < length Xs \<and> mvFirstLocalRow (Xs ! ow i) \<le> i \<and>
             i - mvFirstLocalRow (Xs ! ow i) < length (mvLocal (Xs ! ow i)))"

text \<open>
  The metadata of an elimination tree over \<open>N\<close> indices: every process has a root node,
  which ends at \<open>N\<close>; the grids are not empty and the recorded local size of a
  distributed node is the number of its rows the process holds; and the walks of the
  processes together meet every index below \<open>N\<close> exactly once.
\<close>

definition validTree :: "nat \<Rightarrow> DistSymmInfo list \<Rightarrow> bool" where
  "validTree N infos \<longleftrightarrow>
     (\<forall>info\<in>set infos.
        infoDistNodes info \<noteq> [] \<and>
        distSize (last (infoDistNodes info)) + distOff (last (infoDistNodes info)) = N \<and>
        (\<forall>node\<in>set (tl (infoDistNodes info)).
           0 < gridSize (distGrid node) \<and>
           localSize node =
             length (strided (CyclicShift (VCRank (distGrid node)) 0 (gridSize (distGrid node)))
                       (distSize node) (gridSize (distGrid node))))) \<and>
     distinct (concat (map pullNaturalInds infos)) \<and>
     set (concat (map pullNaturalInds infos)) = {..<N}"

text \<open>
  What the round trip needs of the resized vector: the communicator, the owners of the
  rows below \<open>N\<close>, the first local row and the shape of the local rows of \<open>B\<close>.
\<close>

definition sameLayout :: "nat \<Rightarrow> (nat \<Rightarrow> nat) \<Rightarrow> DistMultiVec \<Rightarrow> DistMultiVec \<Rightarrow> bool" where
  "sameLayout N ow A B \<longleftrightarrow>
     mvCommSize A = mvCommSize B \<and> (\<forall>i<N. mvRowOwner A i = ow i) \<and>
     mvFirstLocalRow A = mvFirstLocalRow B \<and>
     map length (mvLocal A) = map length (mvLocal B)"

subsection \<open>An example on two processes\<close>

text \<open>
  Four rows of width two in blocks of two rows; a tree with one local node per process
  and a root of two rows shared cyclically; the ordering reversed.
\<close>

definition exampleOwner :: "nat \<Rightarrow> nat" where
  "exampleOwner i = min (i div 2) 1"

definition exampleVector :: "DistMultiVec list" where
  "exampleVector =
     [\<lparr>mvHeight = 4, mvWidth = 2, mvCommSize = 2, mvRowOwner = exampleOwner,
       mvFirstLocalRow = 0, mvLocal = [[10, 11], [20, 21]]\<rparr>,
      \<lparr>mvHeight = 4, mvWidth = 2, mvCommSize = 2, mvRowOwner = exampleOwner,
       mvFirstLocalRow = 2, mvLocal = [[30, 31], [40, 41]]\<rparr>]"

definition exampleTree :: "DistSymmInfo list" where
  "exampleTree =
     [\<lparr>infoLocalNodes = [\<lparr>nodeSize = 1, nodeOff = 0\<rparr>],
       infoDistNodes =
         [\<lparr>distSize = 1, distOff = 0, distGrid = \<lparr>gridSize = 1, VCRank = 0\<rparr>, localSize = 1\<rparr>,
          \<lparr>distSize = 2, distOff = 2, distGrid = \<lparr>gridSize = 2, VCRank = 0\<rparr>, localSize = 1\<rparr>]\<rparr>,
      \<lparr>infoLocalNodes = [\<lparr>nodeSize = 1, nodeOff = 1\<rparr>],
       infoDistNodes =
         [\<lparr>distSize = 1, distOff = 1, distGrid = \<lparr>gridSize = 1, VCRank = 0\<rparr>, localSize = 1\<rparr>,
          \<lparr>distSize = 2, distOff = 2, distGrid = \<lparr>gridSize = 2, VCRank = 1\<rparr>, localSize = 1\<rparr>]\<rparr>]"

definition exampleMap :: "nat \<Rightarrow> nat" where
  "exampleMap i = 3 - i"


text \<open>
  The vector \<open>Push\<close> is given, and a resize for it: the handles already have the layout
  of four rows over the two processes, which the resize keeps, clearing the rows to the
  new width.
\<close>

definition exampleTarget :: "DistMultiVec list" where
  "exampleTarget =
     [\<lparr>mvHeight = 4, mvWidth = 1, mvCommSize = 2, mvRowOwner = exampleOwner,
       mvFirstLocalRow = 0, mvLocal = [[7], [7]]\<rparr>,
      \<lparr>mvHeight = 4, mvWidth = 1, mvCommSize = 2, mvRowOwner = exampleOwner,
       mvFirstLocalRow = 2, mvLocal = [[7], [7]]\<rparr>]"

definition exampleResize :: "DistMultiVec \<Rightarrow> nat \<Rightarrow> nat \<Rightarrow> DistMultiVec" where
  "exampleResize X h w =
     X\<lparr>mvHeight := h, mvWidth := w, mvLocal := replicate (length (mvLocal X)) (replicate w 0)\<rparr>"

section \<open>The multi-shift triangular solve \<open>triang_eig::MultiShiftSolve\<close> (sequential)\<close>

text \<open>
  The routines take \<open>U\<close>, \<open>X\<close> by reference and work on views of them. A view
  \<open>A( IR(i0,i1), IR(j0,j1) )\<close> is modelled by copying the block out (\<open>getView\<close>) and
  writing the result back (\<open>putView\<close>). A range that does not lie inside the matrix does
  not denote a block; like the dimension checks the sources keep under \<open>DEBUG_ONLY\<close>, it
  is reported as a logic error.
\<close>

datatype logic_error =
    NotSquare
  | DimensionMismatch
  | IncompatibleShifts
  | EntriesTooLarge
  | InvalidView



text \<open>\<open>X( IR(0,h), IR(j) )\<close>: the leading \<open>h\<close> entries of column \<open>j\<close>, and their write-back.\<close>

definition column :: "Matrix \<Rightarrow> nat \<Rightarrow> nat \<Rightarrow> vec" where
  "column X j h = map (\<lambda>i. Get X i j) [0..<h]"

definition putColumn :: "Matrix \<Rightarrow> nat \<Rightarrow> vec \<Rightarrow> Matrix" where
  "putColumn X j v = X\<lparr>Get := (\<lambda>i c. if c = j \<and> i < length v then v ! i else Get X i c)\<rparr>"

definition MaxNormVec :: "vec \<Rightarrow> real" where
  "MaxNormVec v = fold (\<lambda>e acc. max acc \<bar>e\<bar>) v 0"


definition GetDiagonal :: "Matrix \<Rightarrow> vec" where
  "GetDiagonal U = map (\<lambda>i. Get U i i) [0..<min (Height U) (Width U)]"

definition SetDiagonal :: "Matrix \<Rightarrow> vec \<Rightarrow> Matrix" where
  "SetDiagonal U d =
     U\<lparr>Get := (\<lambda>i j. if i = j \<and> i < min (Height U) (Width U) \<and> i < length d
                      then d ! i else Get U i j)\<rparr>"

definition ShiftDiagonal :: "Matrix \<Rightarrow> real \<Rightarrow> Matrix" where
  "ShiftDiagonal U a =
     U\<lparr>Get := (\<lambda>i j. if i = j \<and> i < min (Height U) (Width U) then Get U i j + a
                      else Get U i j)\<rparr>"

text \<open>\<open>blas::Axpy( i, a, &UBuf[c*ULDim], 1, xjBuf, 1 )\<close>: \<open>x(0:i) += a U(0:i,c)\<close>.\<close>

definition AxpyColumn :: "nat \<Rightarrow> real \<Rightarrow> Matrix \<Rightarrow> nat \<Rightarrow> vec \<Rightarrow> vec" where
  "AxpyColumn i a U c x = map (\<lambda>k. if k < i then x ! k + a * Get U k c else x ! k) [0..<length x]"

text \<open>
  \<open>blas::Trsv( 'U', 'N', 'N', n, UBuf, ULDim, xjBuf, 1 )\<close>: back substitution with the
  upper triangle, from the last row upward.
\<close>

fun Trsv :: "nat \<Rightarrow> Matrix \<Rightarrow> vec \<Rightarrow> vec" where
  "Trsv 0 U x = x"
| "Trsv (Suc j) U x =
     (if x ! j \<noteq> 0
      then let temp = x ! j / Get U j j
           in Trsv j U (AxpyColumn j (- temp) U j (x[j := temp]))
      else Trsv j U x)"

subsection \<open>Overflow parameters\<close>

record Machine =
  underflow :: real
  overflow :: real
  ulp :: real

definition OverflowParameters :: "Machine \<Rightarrow> real \<times> real" where
  "OverflowParameters M =
     (let smallNum = max (underflow M / ulp M) (1 / (overflow M * ulp M));
          bigNum = 1 / smallNum
      in (smallNum, bigNum))"

subsection \<open>\<open>MultiShiftDiagonalBlockSolve\<close>\<close>

text \<open>Infinity norms of the columns of \<open>U\<close>, excluding the diagonal.\<close>

definition columnNorms :: "Matrix \<Rightarrow> nat \<Rightarrow> vec" where
  "columnNorms U n = map (\<lambda>j. fold (\<lambda>i acc. max acc \<bar>Get U i j\<bar>) [0..<j] 0) [0..<n]"

text \<open>
  The growth estimate: the loop \<open>for( Int i=xHeight-1; i>=0; --i )\<close> over the pair
  \<open>(invGi, invMi)\<close>, with its \<open>break\<close>. The first argument counts the rows still to visit.
\<close>

fun growth :: "nat \<Rightarrow> real \<Rightarrow> vec \<Rightarrow> Matrix \<Rightarrow> real \<times> real \<Rightarrow> real \<times> real" where
  "growth 0 smallNum cNorm U g = g"
| "growth (Suc i) smallNum cNorm U (invGi, invMi) =
     (let absUii = \<bar>Get U i i\<bar>
      in if invGi \<le> smallNum \<or> invMi \<le> smallNum \<or> absUii \<le> smallNum then (0, invMi)
         else let invMi1 = min invMi (absUii * invGi);
                  invGi1 = (if i > 0 then invGi * (absUii / (absUii + cNorm ! i)) else invGi)
              in growth i smallNum cNorm U (invGi1, invMi1))"

text \<open>
  The explicit backward substitution with its rescalings; the state is the column, the
  bound \<open>xjMax\<close> and the accumulated scale of the column.
\<close>

fun backSub ::
  "nat \<Rightarrow> real \<Rightarrow> real \<Rightarrow> vec \<Rightarrow> Matrix \<Rightarrow> vec \<times> real \<times> real \<Rightarrow> vec \<times> real \<times> real" where
  "backSub 0 smallNum bigNum cNorm U st = st"
| "backSub (Suc i) smallNum bigNum cNorm U (xj, xjMax, scales_j) =
     (let Uii = Get U i i;
          absUii = \<bar>Uii\<bar>;
          Xij = xj ! i;
          absXij = \<bar>Xij\<bar>;
          (Xij, xj, xjMax, scales_j) =
            (if absUii > smallNum then
               (let (Xij, xj, xjMax, scales_j) =
                      (if absUii \<le> 1 \<and> absXij \<ge> absUii * bigNum
                       then let s = (1 / 2) / absXij
                            in (Xij * s, Scale s xj, xjMax * s, scales_j * s)
                       else (Xij, xj, xjMax, scales_j))
                in (Xij / Uii, xj, xjMax, scales_j))
             else if absUii > 0 then
               (let (Xij, xj, xjMax, scales_j) =
                      (if absXij \<ge> absUii * bigNum
                       then let s = (1 / 2) * absUii * bigNum / absXij
                            in (Xij * s, Scale s xj, xjMax * s, scales_j * s)
                       else (Xij, xj, xjMax, scales_j))
                in (Xij / Uii, xj, xjMax, scales_j))
             else
               (if absXij \<ge> smallNum then (1, Zeros (length xj), 0, 0)
                else (Xij, xj, xjMax, scales_j)));
          xj = xj[i := Xij]
      in if i > 0 then
           (let absXij = \<bar>Xij\<bar>;
                cNorm_i = cNorm ! i;
                (Xij, xj, xjMax, absXij, scales_j) =
                  (if absXij \<ge> 1 \<and> cNorm_i \<ge> (bigNum - xjMax) / absXij
                   then let s = (1 / 4) / absXij
                        in (Xij * s, Scale s xj, xjMax * s, absXij * s, scales_j * s)
                   else if absXij < 1 \<and> absXij * cNorm_i \<ge> bigNum - xjMax
                   then let s = 1 / 4
                        in (Xij * s, Scale s xj, xjMax * s, absXij * s, scales_j * s)
                   else (Xij, xj, xjMax, absXij, scales_j));
                xjMax = xjMax + absXij * cNorm_i
            in backSub i smallNum bigNum cNorm U (AxpyColumn i (- Xij) U i xj, xjMax, scales_j))
         else backSub i smallNum bigNum cNorm U (xj, xjMax, scales_j))"

text \<open>
  The solve of one right-hand side against the shifted \<open>U\<close>. The second component is the
  value for \<open>scales.Set( j, 0, scales_j )\<close>; it is \<open>None\<close> when the iteration is left by
  \<open>continue\<close>, which skips that statement.
\<close>

definition columnSolve ::
  "real \<Rightarrow> real \<Rightarrow> vec \<Rightarrow> Matrix \<Rightarrow> nat \<Rightarrow> vec \<Rightarrow> vec \<times> real option" where
  "columnSolve smallNum bigNum cNorm U xHeight xj0 =
     (let xjMax0 = MaxNormVec xj0;
          (xj, xjMax, scales_j) =
            (if xjMax0 \<ge> bigNum
             then let s = (1 / 2) * bigNum / xjMax0 in (Scale s xj0, xjMax0 * s, 1 * s)
             else (xj0, xjMax0, 1))
      in if xjMax \<le> smallNum then (xj, None)
         else let invGi0 = 1 / xjMax;
                  (invGi1, invMi) = growth xHeight smallNum cNorm U (invGi0, invGi0);
                  invGi = min invGi1 invMi
              in if invGi > smallNum then (Trsv xHeight U xj, Some scales_j)
                 else (case backSub xHeight smallNum bigNum cNorm U (xj, xjMax, scales_j) of
                         (xj', xjMax', scales_j') \<Rightarrow> (xj', Some scales_j')))"

text \<open>One pass of \<open>for( Int j=1; j<numShifts; ++j )\<close>, on \<open>(U, X, scales)\<close>.\<close>

definition columnStep ::
  "real \<Rightarrow> real \<Rightarrow> vec \<Rightarrow> vec \<Rightarrow> nat \<Rightarrow> vec \<Rightarrow> nat \<Rightarrow> Matrix \<times> Matrix \<times> vec
     \<Rightarrow> Matrix \<times> Matrix \<times> vec" where
  "columnStep smallNum bigNum cNorm diag n shifts j st = (case st of (U, X, scales) \<Rightarrow>
     let xHeight = min n j;
         U1 = ShiftDiagonal (SetDiagonal U diag) (- (shifts ! j));
         xj = column X j xHeight
     in case columnSolve smallNum bigNum cNorm U1 xHeight xj of
          (xj', scales_j) \<Rightarrow>
            (U1, putColumn X j xj',
             (case scales_j of None \<Rightarrow> scales | Some s \<Rightarrow> scales[j := s])))"

definition MultiShiftDiagonalBlockSolve ::
  "Machine \<Rightarrow> Matrix \<Rightarrow> vec \<Rightarrow> Matrix \<Rightarrow> logic_error + Matrix \<times> Matrix \<times> vec" where
  "MultiShiftDiagonalBlockSolve M U shifts X =
     (if Height U \<noteq> Width U then Inl NotSquare
      else if Width U \<noteq> Height X then Inl DimensionMismatch
      else if length shifts \<noteq> Width X then Inl IncompatibleShifts
      else
        (let diag = GetDiagonal U;
             n = Height U;
             numShifts = length shifts;
             (smallNum, bigNum) = OverflowParameters M;
             scales = Ones numShifts;
             cNorm = columnNorms U n
         in case fold (columnStep smallNum bigNum cNorm diag n shifts) [1..<numShifts]
                   (U, X, scales) of
              (U1, X1, scales1) \<Rightarrow> Inr (SetDiagonal U1 diag, X1, scales1)))"

subsection \<open>The blocked solve\<close>











text \<open>
  Within the loop of \<open>MultiShiftDiagonalBlockSolve\<close> the matrix \<open>U\<close> may differ from its
  value \<open>U0\<close> at entry on the diagonal only.
\<close>

definition sameOffDiagonal :: "Matrix \<Rightarrow> Matrix \<Rightarrow> bool" where
  "sameOffDiagonal U0 U \<longleftrightarrow>
     Height U = Height U0 \<and> Width U = Width U0 \<and>
     (\<forall>i j. i = j \<and> i < min (Height U0) (Width U0) \<or> Get U i j = Get U0 i j)"

subsection \<open>Small instances\<close>

definition exampleMachine :: Machine where
  "exampleMachine = \<lparr>underflow = 1 / 16, overflow = 16, ulp = 1 / 2\<rparr>"

definition exampleU :: Matrix where
  "exampleU = \<lparr>Height = 2, Width = 2,
     Get = (\<lambda>i j. if i = 0 \<and> j = 0 then 1 else if i = 0 \<and> j = 1 then 2
                   else if i = 1 \<and> j = 1 then 3 else 0)\<rparr>"


definition exampleX2 :: Matrix where
  "exampleX2 = \<lparr>Height = 2, Width = 2, Get = (\<lambda>i j. 5)\<rparr>"




section \<open>Facts about the services\<close>

lemma NumNonPositive_zero_iff: "NumNonPositive v = 0 \<longleftrightarrow> (\<forall>e\<in>set v. 0 < e)"
  by (auto simp: NumNonPositive_def filter_empty_conv not_le)

lemma NumNonPositive_pos_iff: "0 < NumNonPositive v \<longleftrightarrow> (\<exists>e\<in>set v. e \<le> 0)"
  using NumNonPositive_zero_iff[of v] by (auto simp: not_less)

lemma fold_ratioTest_le_init: "fold ratioTest ps a \<le> a"
proof (induction ps arbitrary: a)
  case Nil
  show ?case by simp
next
  case (Cons p ps)
  have "fold ratioTest ps (ratioTest p a) \<le> ratioTest p a" by (rule Cons.IH)
  also have "ratioTest p a \<le> a" by (cases p) (simp add: ratioTest_def)
  finally show ?case by simp
qed

lemma fold_ratioTest_le_elem:
  "(si, dsi) \<in> set ps \<Longrightarrow> dsi < 0 \<Longrightarrow> fold ratioTest ps a \<le> - si / dsi"
proof (induction ps arbitrary: a)
  case Nil
  then show ?case by simp
next
  case (Cons p ps)
  show ?case
  proof (cases "p = (si, dsi)")
    case True
    have "fold ratioTest ps (ratioTest p a) \<le> ratioTest p a" by (rule fold_ratioTest_le_init)
    also have "ratioTest p a \<le> - si / dsi" using True Cons.prems(2) by (simp add: ratioTest_def)
    finally show ?thesis by simp
  next
    case False
    with Cons.prems have "(si, dsi) \<in> set ps" by simp
    from Cons.IH[OF this Cons.prems(2)] show ?thesis by simp
  qed
qed

lemma MaxStep_le_cap: "MaxStepInPositiveCone s ds ub \<le> ub"
  by (simp add: MaxStepInPositiveCone_def fold_ratioTest_le_init)

lemma MaxStep_le_ratio:
  assumes "i < length s" "i < length ds" "ds ! i < 0"
  shows "MaxStepInPositiveCone s ds ub \<le> - (s ! i) / (ds ! i)"
proof -
  have "(s ! i, ds ! i) \<in> set (zip s ds)"
    using assms(1,2) by (metis in_set_zip fst_conv snd_conv)
  from fold_ratioTest_le_elem[OF this assms(3)] show ?thesis
    by (simp add: MaxStepInPositiveCone_def)
qed

lemma Axpy_positive:
  assumes pos: "\<forall>e\<in>set v. 0 < e" and a0: "0 \<le> alpha"
    and bound: "alpha \<le> (99 / 100) * MaxStepInPositiveCone v dv ub"
  shows "\<forall>e\<in>set (Axpy alpha dv v). 0 < e"
proof
  fix e assume "e \<in> set (Axpy alpha dv v)"
  then obtain i where i: "i < length dv" "i < length v" and e: "e = alpha * dv ! i + v ! i"
    by (auto simp: Axpy_def in_set_conv_nth)
  have vi: "0 < v ! i" using pos i(2) by simp
  show "0 < e"
  proof (cases "dv ! i < 0")
    case False
    then have "0 \<le> alpha * dv ! i" using a0 by simp
    then show ?thesis using vi e by linarith
  next
    case True
    have "MaxStepInPositiveCone v dv ub \<le> - (v ! i) / (dv ! i)"
      by (rule MaxStep_le_ratio[OF i(2) i(1) True])
    then have "alpha \<le> (99 / 100) * (- (v ! i) / (dv ! i))" using bound by linarith
    then have "alpha * (- dv ! i) \<le> (99 / 100) * (- (v ! i) / (dv ! i)) * (- dv ! i)"
      using True by (intro mult_right_mono) auto
    also have "\<dots> = (99 / 100) * v ! i" using True by (simp add: field_simps)
    also have "\<dots> < v ! i" using vi by simp
    finally show ?thesis using e by (simp add: algebra_simps)
  qed
qed

section \<open>The dense loop\<close>

lemma IPF_body_unfold:
  "IPF_body E ctrl P numIts (x, y, z) =
     (if NumNonPositive x > 0 \<or> NumNonPositive z > 0
      then Throw (NonPositiveEntries (NumNonPositive x) (NumNonPositive z))
      else if converged HemvLower ctrl P (x, y, z) then Break
      else if numIts = maxIts ctrl then Throw (MaxItsExceeded (maxIts ctrl))
      else (case direction E ctrl P (x, y, z) of
                None \<Rightarrow> Throw InvalidKKTSystem
              | Some d \<Rightarrow> Continue (takeStep (lineSearchAlpha (IPFLineSearch E) ctrl P (x, y, z) d) d (x, y, z))))"
  by (simp add: IPF_body_def Let_def)

lemma IPF_loop_terminates:
  "numIts \<le> maxIts ctrl \<Longrightarrow> \<exists>r. IPF_loop E ctrl P numIts s = Some r"
proof (induction "nat (maxIts ctrl - numIts)" arbitrary: numIts s)
  case 0
  then have eq: "numIts = maxIts ctrl" by simp
  obtain x y z where s: "s = (x, y, z)" by (cases s) auto
  show ?case
    by (subst IPF_loop.simps) (simp add: IPF_body_unfold s eq split: outcome.splits option.splits)
next
  case (Suc k)
  then have le: "numIts + 1 \<le> maxIts ctrl"
    and k: "k = nat (maxIts ctrl - (numIts + 1))" by auto
  show ?case
    apply (subst IPF_loop.simps)
    using Suc.hyps(1)[OF k le]
    apply (auto split: outcome.splits)
    done
qed

lemma rb_entries:
  assumes "length (pb P) = Height (pA P)"
  shows "length (rb_of P (x, y, z)) = Height (pA P)"
    and "\<forall>i<Height (pA P). rb_of P (x, y, z) ! i =
           sum_list (map (\<lambda>j. Get (pA P) i j * x ! j) [0..<Width (pA P)]) - pb P ! i"
  using assms by (simp_all add: rb_of_def GemvNormal_def Scale_def)

lemma rc_entries:
  assumes "Height (pQ P) = Width (pA P)" "length z = Width (pA P)"
  shows "length (rc_of HemvLower P (x, y, z)) = Width (pA P)"
    and "\<forall>j<Width (pA P). rc_of HemvLower P (x, y, z) ! j =
           sum_list (map (\<lambda>i. (if i \<le> j then Get (pQ P) j i else Get (pQ P) i j) * x ! i)
                      [0..<Width (pA P)])
           + sum_list (map (\<lambda>i. Get (pA P) i j * y ! i) [0..<Height (pA P)])
           - z ! j + pc P ! j"
  using assms by (auto simp: rc_of_def Axpy_def GemvTranspose_def HemvLower_def cong: if_cong)


lemma IPF_body_Break_iff:
  "IPF_body E ctrl P numIts (x, y, z) = Break \<longleftrightarrow>
     NumNonPositive x = 0 \<and> NumNonPositive z = 0 \<and> converged HemvLower ctrl P (x, y, z)"
  by (auto simp: IPF_body_unfold split: option.splits)

lemma IPF_body_Continue_iff:
  "IPF_body E ctrl P numIts (x, y, z) = Continue s' \<longleftrightarrow>
     NumNonPositive x = 0 \<and> NumNonPositive z = 0 \<and> \<not> converged HemvLower ctrl P (x, y, z) \<and>
     numIts \<noteq> maxIts ctrl \<and>
     (\<exists>d. direction E ctrl P (x, y, z) = Some d \<and>
          s' = takeStep (lineSearchAlpha (IPFLineSearch E) ctrl P (x, y, z) d) d (x, y, z))"
  by (auto simp: IPF_body_unfold split: option.splits)

lemma IPF_loop_budget_error_aux:
  assumes "IPF_loop E ctrl P numIts s = Some r"
  shows "\<forall>k s'. r = Inl (MaxItsExceeded k, s') \<longrightarrow>
           k = maxIts ctrl \<and> \<not> converged HemvLower ctrl P s'"
proof -
  have "(case ((((E, ctrl), P), numIts), s) of ((((E0, ctrl0), P0), k0), s0) \<Rightarrow>
          \<lambda>r0. \<forall>k s'. r0 = Inl (MaxItsExceeded k, s') \<longrightarrow>
                  k = maxIts ctrl0 \<and> \<not> converged HemvLower ctrl0 P0 s') r"
  proof (rule IPF_loop.raw_induct[OF _ assms], goal_cases)
    case (1 loop E0 ctrl0 P0 k0 s0 r0)
    obtain x y z where s: "s0 = (x, y, z)" by (cases s0) auto
    show ?case
    proof (cases "IPF_body E0 ctrl0 P0 k0 s0")
      case Break
      with 1(2) show ?thesis by auto
    next
      case (Throw e)
      with 1(2) have r: "r0 = Inl (e, s0)" by simp
      from Throw show ?thesis unfolding r s
        by (auto simp: IPF_body_unfold split: if_splits option.splits)
    next
      case (Continue s1)
      with 1(2) have "loop E0 ctrl0 P0 (k0 + 1) s1 = Some r0" by simp
      from 1(1)[OF this] show ?thesis by simp
    qed
  qed
  then show ?thesis by simp
qed

lemma IPF_loop_budget_error:
  "IPF_loop E ctrl P numIts s = Some (Inl (MaxItsExceeded k, s')) \<Longrightarrow>
     k = maxIts ctrl \<and> \<not> converged HemvLower ctrl P s'"
  using IPF_loop_budget_error_aux by blast

text \<open>
  C2 (amended). Whenever the interior check of an iteration passes, the loop is left by
  \<open>break\<close> exactly when the relative objective gap, the relative primal residual
  \<open>\<parallel>A x - b\<parallel> / (1 + \<parallel>b\<parallel>)\<close> and the relative dual residual are all at most \<open>ctrl.tol\<close>;
  the dual residual the code measures is \<open>Q x + A\<^sup>T y - z + c\<close>, entry by entry.
\<close>

theorem IPF_break_iff_converged:
  assumes "Height (pQ P) = Width (pA P)" and "length z = Width (pA P)"
    and "length (pb P) = Height (pA P)"
  shows "(IPF_body E ctrl P numIts (x, y, z) = Break \<longleftrightarrow>
            NumNonPositive x = 0 \<and> NumNonPositive z = 0 \<and>
            \<bar>primObj HemvLower P (x, y, z) - dualObj HemvLower P (x, y, z)\<bar>
               / (1 + \<bar>primObj HemvLower P (x, y, z)\<bar>) \<le> tol ctrl \<and>
            Nrm2 (rb_of P (x, y, z)) / (1 + bNrm2 P) \<le> tol ctrl \<and>
            Nrm2 (rc_of HemvLower P (x, y, z)) / (1 + cNrm2 P) \<le> tol ctrl)
       \<and> (\<forall>i<Height (pA P). rb_of P (x, y, z) ! i =
             sum_list (map (\<lambda>j. Get (pA P) i j * x ! j) [0..<Width (pA P)]) - pb P ! i)
       \<and> (\<forall>j<Width (pA P). rc_of HemvLower P (x, y, z) ! j =
             sum_list (map (\<lambda>i. (if i \<le> j then Get (pQ P) j i else Get (pQ P) i j) * x ! i)
                        [0..<Width (pA P)])
             + sum_list (map (\<lambda>i. Get (pA P) i j * y ! i) [0..<Height (pA P)])
             - z ! j + pc P ! j)"
  using rb_entries(2)[OF assms(3), of x y z] rc_entries(2)[OF assms(1,2), of x y]
  by (simp add: IPF_body_Break_iff converged_def objConv_def rbConv_def rcConv_def)

lemma exampleProblem_simps:
  "pQ exampleProblem = exampleQ" "pA exampleProblem = exampleA"
  "pb exampleProblem = [1]" "pc exampleProblem = [1]"
  "bNrm2 exampleProblem = 1" "cNrm2 exampleProblem = 1"
  by (simp_all add: exampleProblem_def equilibrate_def exampleQ_def exampleA_def Ones_def
      DiagonalSolve_def DiagonalSolveLeft_def DiagonalSolveRight_def Nrm2_def Let_def)

lemma example_measures:
  "primObj HemvLower exampleProblem ([1], [0], [1]) = 1"
  "dualObj HemvLower exampleProblem ([1], [0], [1]) = 0"
  "rb_of exampleProblem ([1], [0], [1]) = [0]"
  "rc_of HemvLower exampleProblem ([1], [0], [1]) = [0]"
  "rc_spec HemvLower exampleProblem ([1], [0], [1]) = [- 2]"
  by (simp_all add: primObj_def dualObj_def rb_of_def rc_of_def rc_spec_def exampleProblem_simps
      exampleQ_def exampleA_def HemvLower_def GemvNormal_def GemvTranspose_def Axpy_def Scale_def
      Dot_def Zeros_def Let_def)

lemma exampleCtrl_simps:
  "tol (exampleCtrl t k) = t" "maxIts (exampleCtrl t k) = k" "centering (exampleCtrl t k) = 1 / 2"
  "system (exampleCtrl t k) = FULL_KKT"
  "primalInitialized (exampleCtrl t k)" "dualInitialized (exampleCtrl t k)"
  by (simp_all add: exampleCtrl_def)

lemma example_converged_half:
  "converged HemvLower (exampleCtrl (1 / 2) k) exampleProblem ([1], [0], [1])"
  by (simp add: converged_def objConv_def rbConv_def rcConv_def example_measures
      exampleProblem_simps exampleCtrl_simps Nrm2_def)

theorem IPF_break_iff_converged_witness:
  "Height (pQ exampleProblem) = Width (pA exampleProblem) \<and>
   length [1::real] = Width (pA exampleProblem) \<and>
   length (pb exampleProblem) = Height (pA exampleProblem) \<and>
   IPF_body scalarCollaborators (exampleCtrl (1 / 2) 0) exampleProblem 0 ([1], [0], [1]) = Break \<and>
   rc_of HemvLower exampleProblem ([1], [0], [1]) ! 0 = 0 * 1 + 1 * 0 - 1 + 1"
  using IPF_break_iff_converged[where P = exampleProblem and z = "[1]" and x = "[1]"
      and E = scalarCollaborators and ctrl = "exampleCtrl (1 / 2) 0" and numIts = 0 and y = "[0]"]
  by (simp add: exampleProblem_simps exampleQ_def exampleA_def example_measures NumNonPositive_def
      exampleCtrl_simps Nrm2_def)

text \<open>
  C2 as stated fails: on the one-variable instance with tolerance \<open>1/2\<close> the loop is left
  by \<open>break\<close> at \<open>x = 1, y = 0, z = 1\<close>, although the measure with the term \<open>- c\<close> is \<open>1\<close>.
\<close>

theorem IPF_dual_residual_sign_counterexample:
  "IPF_body scalarCollaborators (exampleCtrl (1 / 2) 0) exampleProblem 0 ([1], [0], [1]) = Break \<and>
   \<not> rcConv_spec HemvLower exampleProblem ([1], [0], [1]) \<le> tol (exampleCtrl (1 / 2) 0)"
  by (simp add: IPF_body_Break_iff example_converged_half NumNonPositive_def rcConv_spec_def
      example_measures exampleProblem_simps Nrm2_def exampleCtrl_simps)


lemma IPF_loop_Throw:
  "IPF_body E ctrl P numIts s = Throw e \<Longrightarrow> IPF_loop E ctrl P numIts s = Some (Inl (e, s))"
  by (subst IPF_loop.simps) simp

lemma IPF_loop_Break:
  "IPF_body E ctrl P numIts s = Break \<Longrightarrow> IPF_loop E ctrl P numIts s = Some (Inr s)"
  by (subst IPF_loop.simps) simp

lemma IPF_loop_Continue:
  "IPF_body E ctrl P numIts s = Continue s' \<Longrightarrow>
     IPF_loop E ctrl P numIts s = IPF_loop E ctrl P (numIts + 1) s'"
  by (subst IPF_loop.simps) simp

text \<open>
  C3. At the top of an iteration, before the convergence test and before any step, a
  nonpositive entry of \<open>x\<close> or of \<open>z\<close> ends the solve with the logic error that carries the
  two counts; when every entry of \<open>x\<close> and \<open>z\<close> is strictly positive that error cannot
  arise and the iteration goes on to the convergence test.
\<close>

theorem IPF_cone_check:
  "((\<exists>e\<in>set x \<union> set z. e \<le> 0) \<longrightarrow>
      (0 < NumNonPositive x \<or> 0 < NumNonPositive z) \<and>
      IPF_body E ctrl P numIts (x, y, z) =
        Throw (NonPositiveEntries (NumNonPositive x) (NumNonPositive z)) \<and>
      IPF_loop E ctrl P numIts (x, y, z) =
        Some (Inl (NonPositiveEntries (NumNonPositive x) (NumNonPositive z), (x, y, z))))
   \<and> ((\<forall>e\<in>set x \<union> set z. 0 < e) \<longrightarrow>
      (\<forall>k l. IPF_body E ctrl P numIts (x, y, z) \<noteq> Throw (NonPositiveEntries k l)) \<and>
      IPF_body E ctrl P numIts (x, y, z) =
        (if converged HemvLower ctrl P (x, y, z) then Break
         else if numIts = maxIts ctrl then Throw (MaxItsExceeded (maxIts ctrl))
         else (case direction E ctrl P (x, y, z) of
                 None \<Rightarrow> Throw InvalidKKTSystem
               | Some d \<Rightarrow> Continue (takeStep (lineSearchAlpha (IPFLineSearch E) ctrl P
                                                  (x, y, z) d) d (x, y, z)))))"
proof (intro conjI impI)
  assume bad: "\<exists>e\<in>set x \<union> set z. e \<le> 0"
  then show pos: "0 < NumNonPositive x \<or> 0 < NumNonPositive z"
    by (auto simp: NumNonPositive_pos_iff)
  then show body: "IPF_body E ctrl P numIts (x, y, z) =
      Throw (NonPositiveEntries (NumNonPositive x) (NumNonPositive z))"
    by (simp add: IPF_body_unfold)
  then show "IPF_loop E ctrl P numIts (x, y, z) =
      Some (Inl (NonPositiveEntries (NumNonPositive x) (NumNonPositive z), (x, y, z)))"
    by (rule IPF_loop_Throw)
next
  assume good: "\<forall>e\<in>set x \<union> set z. 0 < e"
  then have zero: "NumNonPositive x = 0" "NumNonPositive z = 0"
    by (simp_all add: NumNonPositive_zero_iff)
  show "\<forall>k l. IPF_body E ctrl P numIts (x, y, z) \<noteq> Throw (NonPositiveEntries k l)"
    by (simp add: IPF_body_unfold zero split: option.splits)
  show "IPF_body E ctrl P numIts (x, y, z) =
        (if converged HemvLower ctrl P (x, y, z) then Break
         else if numIts = maxIts ctrl then Throw (MaxItsExceeded (maxIts ctrl))
         else (case direction E ctrl P (x, y, z) of
                 None \<Rightarrow> Throw InvalidKKTSystem
               | Some d \<Rightarrow> Continue (takeStep (lineSearchAlpha (IPFLineSearch E) ctrl P
                                                  (x, y, z) d) d (x, y, z))))"
    by (simp add: IPF_body_unfold zero)
qed

theorem IPF_cone_check_witness:
  "(\<exists>e\<in>set [1::real] \<union> set [0]. e \<le> 0) \<and>
   IPF_body scalarCollaborators (exampleCtrl (1 / 2) 0) exampleProblem 0 ([1], [0], [0]) =
     Throw (NonPositiveEntries 0 1) \<and>
   NumNonPositive [1] = 0 \<and>
   IPF_body scalarCollaborators (exampleCtrl (1 / 2) 0) exampleProblem 0 ([1], [0], [1]) = Break"
  using IPF_cone_check[where x = "[1]" and z = "[0]" and y = "[0]" and E = scalarCollaborators
      and ctrl = "exampleCtrl (1 / 2) 0" and P = exampleProblem and numIts = 0]
    IPF_cone_check[where x = "[1]" and z = "[1]" and y = "[0]" and E = scalarCollaborators
      and ctrl = "exampleCtrl (1 / 2) 0" and P = exampleProblem and numIts = 0]
  by (simp add: NumNonPositive_def example_converged_half)

text \<open>
  C4 (amended). Entered with the counter at most \<open>ctrl.maxIts\<close>, the loop ends. When the
  counter equals \<open>ctrl.maxIts\<close> at an iterate that passes the interior check and does not
  meet the three criteria, the solve ends with the runtime error that carries the
  configured maximum (which is then the iteration count), and that error arises in no
  other way. The test comes after the convergence test: an iterate that passes the
  interior check and meets the criteria ends the loop successfully whatever the counter
  and the maximum, in particular at iteration \<open>0\<close> with \<open>maxIts = 0\<close>. An error leaves
  \<open>x, y, z\<close> as the last iterate reached.
\<close>

theorem IPF_iteration_budget:
  "(numIts \<le> maxIts ctrl \<longrightarrow> (\<exists>r. IPF_loop E ctrl P numIts s = Some r))
   \<and> (NumNonPositive x = 0 \<and> NumNonPositive z = 0 \<and> \<not> converged HemvLower ctrl P (x, y, z) \<longrightarrow>
        IPF_loop E ctrl P (maxIts ctrl) (x, y, z) =
          Some (Inl (MaxItsExceeded (maxIts ctrl), (x, y, z))))
   \<and> (NumNonPositive x = 0 \<and> NumNonPositive z = 0 \<and> converged HemvLower ctrl P (x, y, z) \<longrightarrow>
        IPF_loop E ctrl P numIts (x, y, z) = Some (Inr (x, y, z)))
   \<and> (\<forall>k s'. IPF_loop E ctrl P numIts s = Some (Inl (MaxItsExceeded k, s')) \<longrightarrow>
        k = maxIts ctrl \<and> \<not> converged HemvLower ctrl P s')"
proof (intro conjI impI allI)
  assume "numIts \<le> maxIts ctrl"
  then show "\<exists>r. IPF_loop E ctrl P numIts s = Some r" by (rule IPF_loop_terminates)
next
  assume "NumNonPositive x = 0 \<and> NumNonPositive z = 0 \<and> \<not> converged HemvLower ctrl P (x, y, z)"
  then have "IPF_body E ctrl P (maxIts ctrl) (x, y, z) = Throw (MaxItsExceeded (maxIts ctrl))"
    by (simp add: IPF_body_unfold)
  then show "IPF_loop E ctrl P (maxIts ctrl) (x, y, z) =
      Some (Inl (MaxItsExceeded (maxIts ctrl), (x, y, z)))"
    by (rule IPF_loop_Throw)
next
  assume "NumNonPositive x = 0 \<and> NumNonPositive z = 0 \<and> converged HemvLower ctrl P (x, y, z)"
  then have "IPF_body E ctrl P numIts (x, y, z) = Break"
    by (simp add: IPF_body_Break_iff)
  then show "IPF_loop E ctrl P numIts (x, y, z) = Some (Inr (x, y, z))"
    by (rule IPF_loop_Break)
next
  fix k s'
  assume "IPF_loop E ctrl P numIts s = Some (Inl (MaxItsExceeded k, s'))"
  then show "k = maxIts ctrl" and "\<not> converged HemvLower ctrl P s'"
    using IPF_loop_budget_error by blast+
qed

lemma example_not_converged_tenth:
  "\<not> converged HemvLower (exampleCtrl (1 / 10) k) exampleProblem ([1], [0], [1])"
  by (simp add: converged_def objConv_def example_measures exampleCtrl_simps)

theorem IPF_iteration_budget_witness:
  "(0::int) \<le> maxIts (exampleCtrl (1 / 10) 0) \<and>
   NumNonPositive [1] = 0 \<and>
   \<not> converged HemvLower (exampleCtrl (1 / 10) 0) exampleProblem ([1], [0], [1]) \<and>
   IPF_loop scalarCollaborators (exampleCtrl (1 / 10) 0) exampleProblem 0 ([1], [0], [1]) =
     Some (Inl (MaxItsExceeded 0, ([1], [0], [1]))) \<and>
   converged HemvLower (exampleCtrl (1 / 2) 0) exampleProblem ([1], [0], [1]) \<and>
   IPF_loop scalarCollaborators (exampleCtrl (1 / 2) 0) exampleProblem 0 ([1], [0], [1]) =
     Some (Inr ([1], [0], [1]))"
  using IPF_iteration_budget[where x = "[1]" and z = "[1]" and y = "[0]"
      and E = scalarCollaborators and ctrl = "exampleCtrl (1 / 10) 0" and P = exampleProblem
      and numIts = 0 and s = "([1], [0], [1])"]
    IPF_iteration_budget[where x = "[1]" and z = "[1]" and y = "[0]"
      and E = scalarCollaborators and ctrl = "exampleCtrl (1 / 2) 0" and P = exampleProblem
      and numIts = 0 and s = "([1], [0], [1])"]
  by (simp add: NumNonPositive_def example_converged_half example_not_converged_tenth
      exampleCtrl_simps)


lemma example_direction:
  "direction scalarCollaborators (exampleCtrl t k) exampleProblem ([1], [0], [1]) =
     Some ([0], [- (1 / 2)], [- (1 / 2)])"
  by (simp add: direction_def exampleCtrl_simps scalarCollaborators_def scalarNewton_def
      example_measures rmu_of_def exampleProblem_simps exampleA_def exampleQ_def Dot_def
      DiagonalScale_def Shift_def Let_def)

lemma example_stepBound:
  "stepBound ([1], [0], [1]) ([0], [- (1 / 2)], [- (1 / 2)]) = 99 / 100"
  by (simp add: stepBound_def alphaPrimal_def alphaDual_def MaxStepInPositiveCone_def
      ratioTest_def Let_def)

lemma scalarCollaborators_simps:
  "IPFLineSearch scalarCollaborators Q A b c s d upperBound bTol cTol = upperBound"
  "Initialize scalarCollaborators Q A b c s primalInit dualInit standardShift = s"
  by (simp_all add: scalarCollaborators_def)

lemma example_first_step:
  "IPF_body scalarCollaborators (exampleCtrl (1 / 10) 1) exampleProblem 0 ([1], [0], [1]) =
     Continue ([1], [- (99 / 200)], [101 / 200])"
  by (simp add: IPF_body_unfold NumNonPositive_def example_not_converged_tenth exampleCtrl_simps
      example_direction lineSearchAlpha_def scalarCollaborators_simps example_stepBound
      takeStep_def Axpy_def)

lemma example_second_pass:
  "IPF_body scalarCollaborators (exampleCtrl (1 / 10) 1) exampleProblem 1
     ([1], [- (99 / 200)], [101 / 200]) = Throw (MaxItsExceeded 1)"
  by (simp add: IPF_body_unfold NumNonPositive_def converged_def objConv_def primObj_def
      dualObj_def exampleCtrl_simps exampleProblem_simps exampleQ_def exampleA_def HemvLower_def
      Dot_def Zeros_def Let_def)

text \<open>
  C4 as stated fails in its last clause: with \<open>maxIts = 1\<close> and tolerance \<open>1/10\<close> the
  one-variable instance takes one step from \<open>x = 1, y = 0, z = 1\<close> and then raises the
  budget error; the caller's \<open>y\<close> and \<open>z\<close> then hold the advanced iterate, not their
  values at entry.
\<close>

theorem IPF_partial_iterate_counterexample:
  "IPF scalarCollaborators exampleQ exampleA [1] [1] ([1], [0], [1]) (exampleCtrl (1 / 10) 1) =
     Some (Inl (MaxItsExceeded 1, ([1], [- (99 / 200)], [101 / 200]))) \<and>
   ([1], [- (99 / 200)], [101 / 200]) \<noteq> ([1], [0], [1::real])"
proof -
  have "IPF_loop scalarCollaborators (exampleCtrl (1 / 10) 1) exampleProblem 0 ([1], [0], [1]) =
      IPF_loop scalarCollaborators (exampleCtrl (1 / 10) 1) exampleProblem (0 + 1)
        ([1], [- (99 / 200)], [101 / 200])"
    by (rule IPF_loop_Continue[OF example_first_step])
  also have "\<dots> = Some (Inl (MaxItsExceeded 1, ([1], [- (99 / 200)], [101 / 200])))"
    using IPF_loop_Throw[OF example_second_pass] by simp
  finally have loop:
    "IPF_loop scalarCollaborators (exampleCtrl (1 / 10) 1) exampleProblem 0 ([1], [0], [1]) =
      Some (Inl (MaxItsExceeded 1, ([1], [- (99 / 200)], [101 / 200])))" .
  have eq: "equilibrate exampleQ exampleA [1] [1] = exampleProblem"
    by (simp add: exampleProblem_def)
  have dims: "Height exampleA = Suc 0" "Width exampleA = Suc 0"
    by (simp_all add: exampleA_def)
  have scaled: "DiagonalScale (Ones (Suc 0)) [1] = [1]" "DiagonalScale (Ones (Suc 0)) [0] = [0]"
    "DiagonalSolve (Ones (Suc 0)) [1] = [1]"
    by (simp_all add: DiagonalScale_def DiagonalSolve_def Ones_def)
  show ?thesis
    using loop
    by (simp add: IPF_def Let_def eq dims scaled exampleProblem_simps exampleCtrl_simps
        scalarCollaborators_simps)
qed

text \<open>
  C7. In an iteration that takes a step, the bound handed to the line search is \<open>0.99\<close>
  times the smaller of \<open>alphaPrimal\<close> and \<open>alphaDual\<close>, which are the ratio tests of
  \<open>(x, dx)\<close> and \<open>(z, dz)\<close> over the entries with a negative direction (capped at \<open>1\<close>):
  the bound is at most \<open>0.99\<close> times every such ratio, any step between \<open>0\<close> and the bound
  keeps \<open>x + alpha dx\<close> and \<open>z + alpha dz\<close> strictly positive, and the new iterate is
  \<open>x + alpha dx, y + alpha dy, z + alpha dz\<close> for the \<open>alpha\<close> the line search returns.
\<close>

theorem IPF_step_length:
  assumes "IPF_body E ctrl P numIts (x, y, z) = Continue s'"
  shows "\<exists>dx dy dz alpha bound.
           direction E ctrl P (x, y, z) = Some (dx, dy, dz) \<and>
           bound = (99 / 100) * min (MaxStepInPositiveCone x dx 1) (MaxStepInPositiveCone z dz 1) \<and>
           alpha = IPFLineSearch E (pQ P) (pA P) (pb P) (pc P) (x, y, z) (dx, dy, dz) bound
                     (tol ctrl * (1 + bNrm2 P)) (tol ctrl * (1 + cNrm2 P)) \<and>
           s' = (Axpy alpha dx x, Axpy alpha dy y, Axpy alpha dz z) \<and>
           bound \<le> 99 / 100 \<and>
           (\<forall>i. i < length x \<and> i < length dx \<and> dx ! i < 0 \<longrightarrow>
                bound \<le> (99 / 100) * (- (x ! i) / (dx ! i))) \<and>
           (\<forall>i. i < length z \<and> i < length dz \<and> dz ! i < 0 \<longrightarrow>
                bound \<le> (99 / 100) * (- (z ! i) / (dz ! i))) \<and>
           (\<forall>a. 0 \<le> a \<and> a \<le> bound \<longrightarrow>
                (\<forall>e\<in>set (Axpy a dx x). 0 < e) \<and> (\<forall>e\<in>set (Axpy a dz z). 0 < e))"
proof -
  from assms obtain d where
    zero: "NumNonPositive x = 0" "NumNonPositive z = 0"
    and d: "direction E ctrl P (x, y, z) = Some d"
    and s': "s' = takeStep (lineSearchAlpha (IPFLineSearch E) ctrl P (x, y, z) d) d (x, y, z)"
    unfolding IPF_body_Continue_iff by blast
  obtain dx dy dz where dd: "d = (dx, dy, dz)" by (cases d) auto
  define aP where "aP = MaxStepInPositiveCone x dx 1"
  define aD where "aD = MaxStepInPositiveCone z dz 1"
  define bound where "bound = (99 / 100) * min aP aD"
  define alpha where "alpha = IPFLineSearch E (pQ P) (pA P) (pb P) (pc P) (x, y, z) (dx, dy, dz) bound
                     (tol ctrl * (1 + bNrm2 P)) (tol ctrl * (1 + cNrm2 P))"
  have sb: "stepBound (x, y, z) (dx, dy, dz) = bound"
    by (simp add: stepBound_def alphaPrimal_def alphaDual_def bound_def aP_def aD_def Let_def)
  have step: "s' = (Axpy alpha dx x, Axpy alpha dy y, Axpy alpha dz z)"
    by (simp add: s' dd takeStep_def lineSearchAlpha_def sb alpha_def)
  have capP: "aP \<le> 1" and capD: "aD \<le> 1"
    by (simp_all add: aP_def aD_def MaxStep_le_cap)
  have b1: "bound \<le> 99 / 100" using capP by (simp add: bound_def min_def)
  have bP: "bound \<le> (99 / 100) * aP" and bD: "bound \<le> (99 / 100) * aD"
    by (simp_all add: bound_def)
  have rP: "bound \<le> (99 / 100) * (- (x ! i) / (dx ! i))"
    if "i < length x \<and> i < length dx \<and> dx ! i < 0" for i
  proof -
    have "aP \<le> - (x ! i) / (dx ! i)" unfolding aP_def using that by (intro MaxStep_le_ratio) auto
    then show ?thesis using bP by linarith
  qed
  have rD: "bound \<le> (99 / 100) * (- (z ! i) / (dz ! i))"
    if "i < length z \<and> i < length dz \<and> dz ! i < 0" for i
  proof -
    have "aD \<le> - (z ! i) / (dz ! i)" unfolding aD_def using that by (intro MaxStep_le_ratio) auto
    then show ?thesis using bD by linarith
  qed
  have posx: "\<forall>e\<in>set x. 0 < e" and posz: "\<forall>e\<in>set z. 0 < e"
    using zero by (simp_all add: NumNonPositive_zero_iff)
  have keep: "(\<forall>e\<in>set (Axpy a dx x). 0 < e) \<and> (\<forall>e\<in>set (Axpy a dz z). 0 < e)"
    if "0 \<le> a \<and> a \<le> bound" for a
  proof
    have "a \<le> (99 / 100) * MaxStepInPositiveCone x dx 1" using that bP by (simp add: aP_def)
    then show "\<forall>e\<in>set (Axpy a dx x). 0 < e" using that by (intro Axpy_positive[OF posx]) auto
    have "a \<le> (99 / 100) * MaxStepInPositiveCone z dz 1" using that bD by (simp add: aD_def)
    then show "\<forall>e\<in>set (Axpy a dz z). 0 < e" using that by (intro Axpy_positive[OF posz]) auto
  qed
  show ?thesis
    apply (rule exI[of _ dx], rule exI[of _ dy], rule exI[of _ dz], rule exI[of _ alpha],
        rule exI[of _ bound])
    using d dd step b1 rP rD keep
    by (simp add: bound_def aP_def aD_def alpha_def)
qed

theorem IPF_step_length_witness:
  "IPF_body scalarCollaborators (exampleCtrl (1 / 10) 1) exampleProblem 0 ([1], [0], [1]) =
     Continue ([1], [- (99 / 200)], [101 / 200]) \<and>
   (\<exists>dx dy dz alpha.
      direction scalarCollaborators (exampleCtrl (1 / 10) 1) exampleProblem ([1], [0], [1]) =
        Some (dx, dy, dz) \<and>
      ([1], [- (99 / 200)], [101 / 200]) = (Axpy alpha dx [1], Axpy alpha dy [0], Axpy alpha dz [1]))"
  using IPF_step_length[OF example_first_step] example_first_step by blast


section \<open>The sparse loop and its regularization\<close>

lemma IPF_sparse_body_unfold:
  "IPF_sparse_body E ctrl P k st =
     (if NumNonPositive (fst (current st)) > 0 \<or> NumNonPositive (snd (snd (current st))) > 0
      then Throw (NonPositiveEntries (NumNonPositive (fst (current st)))
                    (NumNonPositive (snd (snd (current st)))))
      else if converged GemvNormal ctrl P (current st) then Break
      else if k = maxIts ctrl then Throw (MaxItsExceeded (maxIts ctrl))
      else (case sparseSolve E ctrl P k st of
              None \<Rightarrow> Throw InvalidKKTSystem
            | Some (n, d, meta) \<Rightarrow>
                Continue ((escalate n (st\<lparr>metadata := meta\<rparr>))
                  \<lparr>current := takeStep (lineSearchAlpha (SparseLineSearch E) ctrl P
                                          (current st) d) d (current st)\<rparr>)))"
  by (cases "current st") (simp add: IPF_sparse_body_def Let_def split: option.splits)

lemma escalate_metadata:
  "regCand (escalate n (st\<lparr>metadata := meta\<rparr>)) = regCand (escalate n st)"
  "increasedReg (escalate n (st\<lparr>metadata := meta\<rparr>)) = increasedReg (escalate n st)"
  by (simp_all add: escalate_def)

lemma IPF_sparse_body_Continue:
  assumes "IPF_sparse_body E ctrl P k st = Continue st'"
  shows "\<exists>n d meta. sparseSolve E ctrl P k st = Some (n, d, meta) \<and>
           regCand st' = regCand (escalate n st) \<and>
           increasedReg st' = increasedReg (escalate n st)"
proof (cases "sparseSolve E ctrl P k st")
  case None
  with assms show ?thesis
    by (simp add: IPF_sparse_body_unfold split: if_splits)
next
  case (Some r)
  obtain n d meta where r: "r = (n, d, meta)" by (cases r) auto
  from assms have "st' = (escalate n (st\<lparr>metadata := meta\<rparr>))
      \<lparr>current := takeStep (lineSearchAlpha (SparseLineSearch E) ctrl P (current st) d) d
                    (current st)\<rparr>"
    by (simp add: IPF_sparse_body_unfold Some r split: if_splits)
  then have "regCand st' = regCand (escalate n st)"
    and "increasedReg st' = increasedReg (escalate n st)"
    by (simp_all add: escalate_metadata)
  with Some r show ?thesis by blast
qed

lemma escalate_cases:
  "(if 3 < n \<and> \<not> increasedReg st
    then regCand (escalate n st) = Scale 10 (regCand st) \<and> increasedReg (escalate n st)
    else regCand (escalate n st) = regCand st \<and>
         increasedReg (escalate n st) = increasedReg st)"
  by (simp add: escalate_def)

lemma Scale_10_grows:
  "length (Scale 10 v) = length v" "i < length v \<Longrightarrow> \<bar>v ! i\<bar> \<le> \<bar>Scale 10 v ! i\<bar>"
  by (simp_all add: Scale_def abs_mult)

lemma follows_regCand:
  assumes "follows E ctrl P (k, st) (k', st')"
  shows "(regCand st' = regCand st \<and> increasedReg st' = increasedReg st) \<or>
         (regCand st' = Scale 10 (regCand st) \<and> \<not> increasedReg st \<and> increasedReg st')"
  using assms
proof (induction "(k, st)" "(k', st')" arbitrary: k' st' rule: follows.induct)
  case here
  show ?case by simp
next
  case (later k1 st1 st2)
  from IPF_sparse_body_Continue[OF later.hyps(3)] obtain n d meta where
    r: "regCand st2 = regCand (escalate n st1)"
    and f: "increasedReg st2 = increasedReg (escalate n st1)"
    by blast
  from later.hyps(2) escalate_cases[of n st1] show ?case
    unfolding r f by (auto split: if_splits)
qed

text \<open>
  C5. Between any two points of one sparse solve, \<open>regCand\<close> is either unchanged (and so
  is the flag) or has been scaled by exactly \<open>10\<close>, once, with \<open>increasedReg\<close> going from
  false to true; so its length is kept and no entry shrinks in magnitude. In a single
  iteration that takes a step the scaling happens exactly when the solve reports more
  than \<open>3\<close> large refinements and \<open>increasedReg\<close> is still false.
\<close>

theorem regCand_escalation:
  "(follows E ctrl P (k, st) (k', st') \<longrightarrow>
      ((regCand st' = regCand st \<and> increasedReg st' = increasedReg st) \<or>
       (regCand st' = Scale 10 (regCand st) \<and> \<not> increasedReg st \<and> increasedReg st')) \<and>
      length (regCand st') = length (regCand st) \<and>
      (\<forall>i<length (regCand st). \<bar>regCand st ! i\<bar> \<le> \<bar>regCand st' ! i\<bar>))
   \<and> (IPF_sparse_body E ctrl P k st = Continue st'' \<longrightarrow>
      (\<exists>n d meta. sparseSolve E ctrl P k st = Some (n, d, meta) \<and>
         (if 3 < n \<and> \<not> increasedReg st
          then regCand st'' = Scale 10 (regCand st) \<and> increasedReg st''
          else regCand st'' = regCand st \<and> increasedReg st'' = increasedReg st)))"
proof (intro conjI impI)
  assume run: "follows E ctrl P (k, st) (k', st')"
  from follows_regCand[OF run]
  show alt: "(regCand st' = regCand st \<and> increasedReg st' = increasedReg st) \<or>
       (regCand st' = Scale 10 (regCand st) \<and> \<not> increasedReg st \<and> increasedReg st')" .
  from alt show "length (regCand st') = length (regCand st)"
    by (auto simp: Scale_10_grows)
  from alt show "\<forall>i<length (regCand st). \<bar>regCand st ! i\<bar> \<le> \<bar>regCand st' ! i\<bar>"
    by (auto simp: Scale_10_grows)
next
  assume "IPF_sparse_body E ctrl P k st = Continue st''"
  from IPF_sparse_body_Continue[OF this] obtain n d meta where
    solve: "sparseSolve E ctrl P k st = Some (n, d, meta)"
    and r: "regCand st'' = regCand (escalate n st)"
    and f: "increasedReg st'' = increasedReg (escalate n st)"
    by blast
  show "\<exists>n d meta. sparseSolve E ctrl P k st = Some (n, d, meta) \<and>
         (if 3 < n \<and> \<not> increasedReg st
          then regCand st'' = Scale 10 (regCand st) \<and> increasedReg st''
          else regCand st'' = regCand st \<and> increasedReg st'' = increasedReg st)"
    using solve escalate_cases[of n st] unfolding r f by blast
qed

lemma example_sparse_step:
  "IPF_sparse_body (scalarSparseCollaborators 4) (exampleCtrl (1 / 10) 1) exampleProblem 0
     exampleState = Continue exampleNext"
proof -
  have conv: "\<not> converged GemvNormal (exampleCtrl (1 / 10) 1) exampleProblem ([1], [0], [1])"
    by (simp add: converged_def objConv_def primObj_def dualObj_def exampleCtrl_simps
        exampleProblem_simps exampleQ_def exampleA_def GemvNormal_def Dot_def Zeros_def Let_def)
  have rc: "rc_of GemvNormal exampleProblem ([1], [0], [1]) = [0]"
    by (simp add: rc_of_def exampleProblem_simps exampleQ_def exampleA_def GemvNormal_def
        GemvTranspose_def Axpy_def)
  have rmu: "rmu_of (exampleCtrl (1 / 10) 1) exampleProblem ([1], [0], [1]) = [1 / 2]"
    by (simp add: rmu_of_def exampleCtrl_simps exampleProblem_simps exampleA_def Dot_def
        DiagonalScale_def Shift_def Let_def)
  have solve: "sparseSolve (scalarSparseCollaborators 4) (exampleCtrl (1 / 10) 1) exampleProblem 0
      exampleState = Some (4, ([0], [- (1 / 2)], [- (1 / 2)]), ())"
    by (simp add: sparseSolve_def exampleState_def exampleCtrl_simps scalarSparseCollaborators_def
        scalarNewton_def rc rmu example_measures exampleProblem_simps exampleA_def exampleQ_def
        Let_def)
  have cur: "current exampleState = ([1], [0], [1])"
    by (simp add: exampleState_def)
  have search: "SparseLineSearch (scalarSparseCollaborators 4) =
      (\<lambda>Q A b c s d upperBound bTol cTol. upperBound)"
    by (simp add: scalarSparseCollaborators_def)
  have "IPF_sparse_body (scalarSparseCollaborators 4) (exampleCtrl (1 / 10) 1) exampleProblem 0
     exampleState =
     Continue ((escalate 4 (exampleState\<lparr>metadata := ()\<rparr>))
                \<lparr>current := ([1], [- (99 / 200)], [101 / 200])\<rparr>)"
    by (simp add: IPF_sparse_body_unfold cur solve conv NumNonPositive_def exampleCtrl_simps
        lineSearchAlpha_def search example_stepBound takeStep_def Axpy_def)
  also have "(escalate 4 (exampleState\<lparr>metadata := ()\<rparr>))
                \<lparr>current := ([1], [- (99 / 200)], [101 / 200])\<rparr> = exampleNext"
    by (simp add: escalate_def exampleState_def exampleNext_def Scale_def)
  finally show ?thesis .
qed

theorem regCand_escalation_witness:
  "follows (scalarSparseCollaborators 4) (exampleCtrl (1 / 10) 1) exampleProblem
     (0, exampleState) (0 + 1, exampleNext) \<and>
   regCand exampleNext = Scale 10 (regCand exampleState) \<and>
   length (regCand exampleNext) = length (regCand exampleState) \<and>
   \<bar>regCand exampleState ! 0\<bar> \<le> \<bar>regCand exampleNext ! 0\<bar> \<and>
   \<bar>regCand exampleState ! 1\<bar> \<le> \<bar>regCand exampleNext ! 1\<bar>"
proof -
  have run: "follows (scalarSparseCollaborators 4) (exampleCtrl (1 / 10) 1) exampleProblem
      (0, exampleState) (0 + 1, exampleNext)"
    by (rule follows.later[OF follows.here example_sparse_step])
  have scaled: "regCand exampleNext = Scale 10 (regCand exampleState)"
    by (simp add: exampleNext_def exampleState_def Scale_def)
  have two: "length (regCand exampleState) = 2"
    by (simp add: exampleState_def)
  from regCand_escalation[where E = "scalarSparseCollaborators 4"
      and ctrl = "exampleCtrl (1 / 10) 1" and P = exampleProblem and k = 0 and st = exampleState
      and k' = "0 + 1" and st' = exampleNext] run
  have "length (regCand exampleNext) = length (regCand exampleState)"
    and "\<forall>i<length (regCand exampleState).
           \<bar>regCand exampleState ! i\<bar> \<le> \<bar>regCand exampleNext ! i\<bar>"
    by blast+
  with run scaled two show ?thesis by simp
qed

text \<open>
  C6. The initial candidate of the sparse variants: for the full system it has \<open>m + 2n\<close>
  entries, for the augmented system \<open>n + m\<close>; entry \<open>i\<close> is \<open>epsilon\<^sup>0\<^sup>.\<^sup>7\<^sup>5\<close> on the primal
  block \<open>i < n\<close> and \<open>- epsilon\<^sup>0\<^sup>.\<^sup>5\<close> on the Lagrange block and on the dual block of the full
  system; the distributed variant sets each local row from its global index in the same
  way. For a positive \<open>epsilon\<close> the primal block is positive and the others negative.
  The loop starts from this candidate with \<open>increasedReg\<close> false.
\<close>

theorem initialRegCand_blocks:
  "length (initialRegCand FULL_KKT m n eps) = m + 2 * n \<and>
   (\<forall>i<m + 2 * n. initialRegCand FULL_KKT m n eps ! i =
        (if i < n then eps powr (3 / 4) else - (eps powr (1 / 2)))) \<and>
   length (initialRegCand AUGMENTED_KKT m n eps) = n + m \<and>
   (\<forall>i<n + m. initialRegCand AUGMENTED_KKT m n eps ! i =
        (if i < n then eps powr (3 / 4) else - (eps powr (1 / 2)))) \<and>
   (\<forall>sys iLoc. sys \<noteq> NORMAL_KKT \<and> iLoc < localHeight \<longrightarrow>
        initialRegCandLocal sys m n eps localHeight globalRow ! iLoc =
          (if globalRow iLoc < n then eps powr (3 / 4) else - (eps powr (1 / 2)))) \<and>
   (0 < eps \<longrightarrow> 0 < eps powr (3 / 4) \<and> - (eps powr (1 / 2)) < 0) \<and>
   regCand (IPF_sparse_start E meta0 eps QPre APre bPre cPre s ctrl) =
     initialRegCand (system ctrl) (Height APre) (Width APre) eps \<and>
   \<not> increasedReg (IPF_sparse_start E meta0 eps QPre APre bPre cPre s ctrl)"
proof (intro conjI allI impI)
  show "length (initialRegCand FULL_KKT m n eps) = m + 2 * n"
    by (simp add: initialRegCand_def Let_def)
  show "length (initialRegCand AUGMENTED_KKT m n eps) = n + m"
    by (simp add: initialRegCand_def Let_def)
  show "initialRegCand FULL_KKT m n eps ! i =
        (if i < n then eps powr (3 / 4) else - (eps powr (1 / 2)))" if "i < m + 2 * n" for i
    using that by (simp add: initialRegCand_def Let_def)
  show "initialRegCand AUGMENTED_KKT m n eps ! i =
        (if i < n then eps powr (3 / 4) else - (eps powr (1 / 2)))" if "i < n + m" for i
    using that by (simp add: initialRegCand_def Let_def)
  show "initialRegCandLocal sys m n eps localHeight globalRow ! iLoc =
          (if globalRow iLoc < n then eps powr (3 / 4) else - (eps powr (1 / 2)))"
    if "sys \<noteq> NORMAL_KKT \<and> iLoc < localHeight" for sys iLoc
    using that by (cases sys) (simp_all add: initialRegCandLocal_def Let_def)
  show "0 < eps powr (3 / 4)" and "- (eps powr (1 / 2)) < 0" if "0 < eps"
    using that by simp_all
  obtain x y z where s: "s = (x, y, z)" by (cases s) auto
  show "regCand (IPF_sparse_start E meta0 eps QPre APre bPre cPre s ctrl) =
     initialRegCand (system ctrl) (Height APre) (Width APre) eps"
    by (simp add: IPF_sparse_start_def s Let_def)
  show "\<not> increasedReg (IPF_sparse_start E meta0 eps QPre APre bPre cPre s ctrl)"
    by (simp add: IPF_sparse_start_def s Let_def)
qed

theorem initialRegCand_blocks_witness:
  "(0::real) < 1 / 2 \<and>
   length (initialRegCand FULL_KKT 1 1 (1 / 2)) = 3 \<and>
   initialRegCand FULL_KKT 1 1 (1 / 2) ! 0 = (1 / 2) powr (3 / 4) \<and>
   initialRegCand FULL_KKT 1 1 (1 / 2) ! 2 = - ((1 / 2) powr (1 / 2)) \<and>
   (0::real) < (1 / 2) powr (3 / 4) \<and> - (((1::real) / 2) powr (1 / 2)) < 0"
proof -
  note blocks = initialRegCand_blocks[where m = 1 and n = 1 and eps = "1 / 2"]
  have len: "length (initialRegCand FULL_KKT 1 1 (1 / 2)) = 1 + 2 * 1"
    by (rule conjunct1[OF blocks])
  have ent: "\<forall>i<1 + 2 * 1. initialRegCand FULL_KKT 1 1 (1 / 2) ! i =
        (if i < 1 then (1 / 2) powr (3 / 4) else - ((1 / 2) powr (1 / 2)))"
    by (rule conjunct1[OF conjunct2[OF blocks]])
  have e0: "initialRegCand FULL_KKT 1 1 (1 / 2) ! 0 = (1 / 2) powr (3 / 4)"
    using ent[rule_format, of 0] by simp
  have e2: "initialRegCand FULL_KKT 1 1 (1 / 2) ! 2 = - ((1 / 2) powr (1 / 2))"
    using ent[rule_format, of 2] by simp
  have pos: "(0::real) < 1 / 2" by simp
  have signs: "(0::real) < (1 / 2) powr (3 / 4) \<and> - (((1::real) / 2) powr (1 / 2)) < 0"
    using conjunct1[OF conjunct2[OF conjunct2[OF conjunct2[OF conjunct2[OF conjunct2[OF blocks]]]]]] pos
    by (rule mp)
  have len3: "length (initialRegCand FULL_KKT 1 1 (1 / 2)) = 3" using len by simp
  show ?thesis using pos len3 e0 e2 signs by blast
qed

section \<open>The nodal multi-vector\<close>

text \<open>
  C9. On the container the default constructor builds (no local and no distributed
  nodes) \<open>LocalHeight\<close> and \<open>UpdateHeight\<close> complete, but \<open>UpdateWidth\<close> reads the
  first local node of an empty list: the access is out of bounds.
\<close>

theorem UpdateWidth_empty_out_of_bounds:
  "UpdateWidth emptyNodal = Inl OutOfBounds \<and>
   LocalHeight emptyNodal = 0 \<and> UpdateHeight emptyNodal = emptyNodal"
  by (simp add: UpdateWidth_def LocalHeight_def UpdateHeight_def emptyNodal_def)

subsection \<open>Lists, prefix sums and buckets\<close>

lemma scanFrom_length: "length (scanFrom a cs) = length cs"
  by (induction cs arbitrary: a) auto

lemma scanFrom_nth: "q < length cs \<Longrightarrow> scanFrom a cs ! q = a + sum_list (take q cs)"
proof (induction cs arbitrary: a q)
  case Nil
  then show ?case by simp
next
  case (Cons c cs)
  then show ?case by (cases q) auto
qed

lemma scanFrom_scale:
  "map (\<lambda>c. c * w) (scanFrom a cs) = scanFrom (a * w) (map (\<lambda>c. c * w) cs)"
  by (induction cs arbitrary: a) (auto simp: algebra_simps)

lemma length_concat_take:
  "length (concat (take q bs)) = sum_list (take q (map length bs))"
  by (simp add: length_concat take_map)

lemma scanFrom_lengths:
  "q < length bs \<Longrightarrow> scanFrom 0 (map length bs) ! q = length (concat (take q bs))"
  by (simp add: scanFrom_nth length_concat_take)

lemma concat_nth_offset:
  "q < length bs \<Longrightarrow> k < length (bs ! q) \<Longrightarrow>
     concat bs ! (length (concat (take q bs)) + k) = bs ! q ! k"
proof (induction bs arbitrary: q)
  case Nil
  then show ?case by simp
next
  case (Cons b bs)
  show ?case
  proof (cases q)
    case 0
    with Cons.prems show ?thesis by (simp add: nth_append)
  next
    case (Suc q')
    with Cons.prems have "concat bs ! (length (concat (take q' bs)) + k) = bs ! q' ! k"
      by (intro Cons.IH) auto
    with Suc show ?thesis by (simp add: nth_append add.assoc)
  qed
qed

lemma concat_index_decompose:
  "x < length (concat bs) \<Longrightarrow>
     \<exists>q k. q < length bs \<and> k < length (bs ! q) \<and> x = length (concat (take q bs)) + k"
proof (induction bs arbitrary: x)
  case Nil
  then show ?case by simp
next
  case (Cons b bs)
  show ?case
  proof (cases "x < length b")
    case True
    then have "0 < length (b # bs) \<and> x < length ((b # bs) ! 0) \<and>
        x = length (concat (take 0 (b # bs))) + x" by simp
    then show ?thesis by blast
  next
    case False
    with Cons.prems have "x - length b < length (concat bs)" by auto
    from Cons.IH[OF this] obtain q k where
      "q < length bs" "k < length (bs ! q)" "x - length b = length (concat (take q bs)) + k"
      by blast
    with False have "Suc q < length (b # bs) \<and> k < length ((b # bs) ! Suc q) \<and>
        x = length (concat (take (Suc q) (b # bs))) + k" by auto
    then show ?thesis by blast
  qed
qed

lemma slice_concat:
  "p < length bs \<Longrightarrow> slice (concat bs) (length (concat (take p bs))) (length (bs ! p)) = bs ! p"
proof -
  assume p: "p < length bs"
  have "bs = take p bs @ bs ! p # drop (Suc p) bs" using p by (rule id_take_nth_drop)
  then have "concat bs = concat (take p bs) @ bs ! p @ concat (drop (Suc p) bs)"
    by (metis concat.simps(2) concat_append)
  then show ?thesis by (simp add: slice_def)
qed

lemma map_length_same:
  "\<forall>r\<in>set rs. length r = w \<Longrightarrow> map length rs = replicate (length rs) w"
  by (induction rs) auto

lemma sum_list_indicator:
  "q < P \<Longrightarrow> sum_list (map (\<lambda>q'. if q = q' then 1 else 0) [0..<P]) = (1::nat)"
proof (induction P)
  case 0
  then show ?case by simp
next
  case (Suc P)
  show ?case
  proof (cases "q < P")
    case True
    with Suc.IH show ?thesis by simp
  next
    case False
    with Suc.prems have q: "q = P" by simp
    have "sum_list (map (\<lambda>q'. if P = q' then 1 else 0) [0..<P]) = (0::nat)"
      by (simp add: sum_list_eq_0_iff)
    with q show ?thesis by simp
  qed
qed

lemma concat_rows_nth:
  assumes "\<forall>r\<in>set rs. length r = w" "k < length rs" "j < w"
  shows "concat rs ! (k * w + j) = rs ! k ! j"
proof -
  have len: "length (concat (take k rs)) = k * w"
  proof -
    have "\<forall>r\<in>set (take k rs). length r = w" using assms(1) by (meson in_set_takeD)
    then have "map length (take k rs) = replicate (length (take k rs)) w"
      by (rule map_length_same)
    then show ?thesis using assms(2) by (simp add: length_concat sum_list_replicate)
  qed
  have "concat rs ! (length (concat (take k rs)) + j) = rs ! k ! j"
    using assms by (intro concat_nth_offset) auto
  then show ?thesis by (simp add: len)
qed

lemma length_concat_rows:
  "\<forall>r\<in>set rs. length r = w \<Longrightarrow> length (concat rs) = length rs * w"
proof -
  assume "\<forall>r\<in>set rs. length r = w"
  then have "map length rs = replicate (length rs) w"
    by (rule map_length_same)
  then show ?thesis by (simp add: length_concat sum_list_replicate)
qed

lemma filter_nth_take:
  "s < length xs \<Longrightarrow> P (xs ! s) \<Longrightarrow> filter P xs ! length (filter P (take s xs)) = xs ! s"
proof -
  assume s: "s < length xs" and P: "P (xs ! s)"
  have "xs = take s xs @ xs ! s # drop (Suc s) xs" using s by (rule id_take_nth_drop)
  then have "filter P xs = filter P (take s xs) @ xs ! s # filter P (drop (Suc s) xs)"
    using P by (metis filter.simps(2) filter_append)
  then show ?thesis by (simp add: nth_append)
qed

lemma filter_take_less:
  "s < length xs \<Longrightarrow> P (xs ! s) \<Longrightarrow> length (filter P (take s xs)) < length (filter P xs)"
proof -
  assume s: "s < length xs" and P: "P (xs ! s)"
  have "xs = take s xs @ xs ! s # drop (Suc s) xs" using s by (rule id_take_nth_drop)
  then have "filter P xs = filter P (take s xs) @ xs ! s # filter P (drop (Suc s) xs)"
    using P by (metis filter.simps(2) filter_append)
  then have "length (filter P xs) =
      length (filter P (take s xs)) + Suc (length (filter P (drop (Suc s) xs)))"
    by (metis length_append length_Cons)
  then show ?thesis by simp
qed

lemma filter_index_exists:
  "k < length (filter P xs) \<Longrightarrow>
     \<exists>s<length xs. P (xs ! s) \<and> length (filter P (take s xs)) = k"
proof (induction xs arbitrary: k rule: rev_induct)
  case Nil
  then show ?case by simp
next
  case (snoc x xs)
  show ?case
  proof (cases "k < length (filter P xs)")
    case True
    from snoc.IH[OF this] obtain s where "s < length xs" "P (xs ! s)"
      "length (filter P (take s xs)) = k" by blast
    then have "s < length (xs @ [x]) \<and> P ((xs @ [x]) ! s) \<and>
        length (filter P (take s (xs @ [x]))) = k" by (simp add: nth_append)
    then show ?thesis by blast
  next
    case False
    with snoc.prems have "P x" and "k = length (filter P xs)" by (auto split: if_splits)
    then have "length xs < length (xs @ [x]) \<and> P ((xs @ [x]) ! length xs) \<and>
        length (filter P (take (length xs) (xs @ [x]))) = k" by simp
    then show ?thesis by blast
  qed
qed

lemma sum_list_bucket_lengths:
  "\<forall>x\<in>set xs. key x < P \<Longrightarrow>
     sum_list (map (\<lambda>q. length (filter (\<lambda>x. key x = q) xs)) [0..<P]) = length xs"
proof (induction xs)
  case Nil
  then show ?case by simp
next
  case (Cons x xs)
  then have kx: "key x < P" and rest: "\<forall>x\<in>set xs. key x < P" by auto
  have "sum_list (map (\<lambda>q. length (filter (\<lambda>x. key x = q) (x # xs))) [0..<P]) =
        sum_list (map (\<lambda>q. (if key x = q then 1 else 0) + length (filter (\<lambda>x. key x = q) xs))
                    [0..<P])"
    by (intro arg_cong[where f = sum_list] map_cong) auto
  also have "\<dots> = sum_list (map (\<lambda>q. if key x = q then 1 else 0) [0..<P]) +
        sum_list (map (\<lambda>q. length (filter (\<lambda>x. key x = q) xs)) [0..<P])"
    by (simp add: sum_list_addf)
  also have "sum_list (map (\<lambda>q. if key x = q then 1 else 0) [0..<P]) = (1::nat)"
    using kx by (rule sum_list_indicator)
  finally show ?case using Cons.IH[OF rest] by simp
qed

subsection \<open>Cursors\<close>

lemma positions_length: "length (positions qs offs) = length qs"
  by (induction qs arbitrary: offs) auto

lemma positions_nth:
  "s < length qs \<Longrightarrow> \<forall>q\<in>set qs. q < length offs \<Longrightarrow>
     positions qs offs ! s = offs ! (qs ! s) + length (filter (\<lambda>q. q = qs ! s) (take s qs))"
proof (induction qs arbitrary: offs s)
  case Nil
  then show ?case by simp
next
  case (Cons q qs)
  show ?case
  proof (cases s)
    case 0
    then show ?thesis by simp
  next
    case (Suc s')
    with Cons.prems have s': "s' < length qs" by simp
    have bound: "\<forall>q'\<in>set qs. q' < length (offs[q := offs ! q + 1])" using Cons.prems(2) by simp
    have q: "q < length offs" using Cons.prems(2) by simp
    have "positions qs (offs[q := offs ! q + 1]) ! s' =
        (offs[q := offs ! q + 1]) ! (qs ! s') + length (filter (\<lambda>q. q = qs ! s') (take s' qs))"
      by (rule Cons.IH[OF s' bound])
    then show ?thesis using Suc q by (auto simp: nth_list_update)
  qed
qed

lemma length_buckets: "length (buckets P key xs) = P"
  by (simp add: buckets_def)

lemma length_starts: "length (starts P key xs) = P"
  by (simp add: starts_def scanFrom_length buckets_def)

lemma length_concat_buckets:
  "\<forall>x\<in>set xs. key x < P \<Longrightarrow> length (concat (buckets P key xs)) = length xs"
  using sum_list_bucket_lengths[of xs key P]
  by (simp add: length_concat buckets_def bucket_def comp_def)

lemma bucket_map_key:
  "length (filter (\<lambda>q'. q' = q) (take s (map key xs))) = length (bucket key q (take s xs))"
  by (simp add: bucket_def filter_map comp_def take_map)

text \<open>The position of item \<open>s\<close> is where the bucketed arrangement holds that item.\<close>

lemma positions_bucketed:
  assumes keys: "\<forall>x\<in>set xs. key x < P" and s: "s < length xs"
  shows "positions (map key xs) (starts P key xs) ! s < length xs"
    and "concat (buckets P key xs) ! (positions (map key xs) (starts P key xs) ! s) = xs ! s"
proof -
  let ?q = "key (xs ! s)"
  let ?k = "length (bucket key ?q (take s xs))"
  have q: "?q < P" using keys s by simp
  have pos: "positions (map key xs) (starts P key xs) ! s = starts P key xs ! ?q + ?k"
    using positions_nth[of s "map key xs" "starts P key xs"] keys s
    by (simp add: length_starts bucket_map_key)
  have st: "starts P key xs ! ?q = length (concat (take ?q (buckets P key xs)))"
    unfolding starts_def using q by (intro scanFrom_lengths) (simp add: length_buckets)
  have k: "?k < length (buckets P key xs ! ?q)"
    using filter_take_less[of s xs "\<lambda>x. key x = ?q"] s q by (simp add: buckets_def bucket_def)
  have val: "buckets P key xs ! ?q ! ?k = xs ! s"
    using filter_nth_take[of s xs "\<lambda>x. key x = ?q"] s q by (simp add: buckets_def bucket_def)
  have at: "concat (buckets P key xs) ! (length (concat (take ?q (buckets P key xs))) + ?k) =
      buckets P key xs ! ?q ! ?k"
    using q k by (intro concat_nth_offset) (simp_all add: length_buckets)
  show "concat (buckets P key xs) ! (positions (map key xs) (starts P key xs) ! s) = xs ! s"
    by (simp add: pos st at val)
  have "length (concat (take ?q (buckets P key xs))) + ?k < length (concat (buckets P key xs))"
  proof -
    have "buckets P key xs = take ?q (buckets P key xs) @ buckets P key xs ! ?q
        # drop (Suc ?q) (buckets P key xs)"
      using q by (intro id_take_nth_drop) (simp add: length_buckets)
    then have "length (concat (buckets P key xs)) =
        length (concat (take ?q (buckets P key xs))) + length (buckets P key xs ! ?q)
        + length (concat (drop (Suc ?q) (buckets P key xs)))"
      by (metis append_Cons append_Nil concat.simps(2) concat_append length_append add.assoc)
    then show ?thesis using k by linarith
  qed
  then show "positions (map key xs) (starts P key xs) ! s < length xs"
    by (simp add: pos st length_concat_buckets[OF keys])
qed

lemma positions_cover:
  assumes keys: "\<forall>x\<in>set xs. key x < P" and x: "x < length xs"
  shows "\<exists>s<length xs. positions (map key xs) (starts P key xs) ! s = x"
proof -
  from x have "x < length (concat (buckets P key xs))" by (simp add: length_concat_buckets[OF keys])
  from concat_index_decompose[OF this] obtain q k where
    q: "q < P" and k: "k < length (buckets P key xs ! q)"
    and xeq: "x = length (concat (take q (buckets P key xs))) + k"
    by (auto simp: length_buckets)
  from k q have "k < length (filter (\<lambda>x. key x = q) xs)" by (simp add: buckets_def bucket_def)
  from filter_index_exists[OF this] obtain s where
    s: "s < length xs" and ks: "key (xs ! s) = q"
    and kk: "length (filter (\<lambda>x. key x = q) (take s xs)) = k" by blast
  have pos: "positions (map key xs) (starts P key xs) ! s =
      starts P key xs ! q + length (bucket key q (take s xs))"
    using positions_nth[of s "map key xs" "starts P key xs"] keys s ks
    by (simp add: length_starts bucket_map_key)
  have st: "starts P key xs ! q = length (concat (take q (buckets P key xs)))"
    unfolding starts_def using q by (intro scanFrom_lengths) (simp add: length_buckets)
  have "positions (map key xs) (starts P key xs) ! s = x"
    using kk by (simp add: pos st xeq bucket_def)
  with s show ?thesis by blast
qed

subsection \<open>Writes that agree with a target\<close>

lemma length_put: "length (put pv buf) = length buf"
  by (simp add: put_def)

lemma put_nth: "x < length buf \<Longrightarrow> put pv buf ! x = (if x = fst pv then snd pv else buf ! x)"
  by (auto simp: put_def)

lemma fold_put_nth:
  assumes "\<forall>pv\<in>set pvs. fst pv < length T \<and> T ! fst pv = snd pv"
  shows "length (fold put pvs buf) = length buf \<and>
         (\<forall>x<length buf. fold put pvs buf ! x = (if x \<in> fst ` set pvs then T ! x else buf ! x))"
  using assms
proof (induction pvs arbitrary: buf)
  case Nil
  then show ?case by simp
next
  case (Cons pv pvs)
  then have IH: "length (fold put pvs (put pv buf)) = length (put pv buf) \<and>
      (\<forall>x<length (put pv buf). fold put pvs (put pv buf) ! x =
          (if x \<in> fst ` set pvs then T ! x else put pv buf ! x))"
    by simp
  have pv: "T ! fst pv = snd pv" using Cons.prems by simp
  show ?case using IH pv by (auto simp: length_put put_nth)
qed

lemma fold_put_target:
  assumes "\<forall>pv\<in>set pvs. fst pv < length T \<and> T ! fst pv = snd pv"
    and "length buf = length T" and "\<forall>x<length T. x \<in> fst ` set pvs"
  shows "fold put pvs buf = T"
  using fold_put_nth[OF assms(1), of buf] assms(2,3)
  by (intro nth_equalityI) auto

subsection \<open>Counting\<close>

lemma countOwners_fold:
  "\<forall>i\<in>set inds. owner i < length sz \<Longrightarrow>
     fold (\<lambda>i sizes. sizes[owner i := sizes ! owner i + 1]) inds sz =
     map (\<lambda>q. sz ! q + length (bucket owner q inds)) [0..<length sz]"
proof (induction inds arbitrary: sz)
  case Nil
  then show ?case by (simp add: bucket_def map_nth)
next
  case (Cons i inds)
  let ?sz = "sz[owner i := sz ! owner i + 1]"
  have "\<forall>i'\<in>set inds. owner i' < length ?sz" using Cons.prems by simp
  from Cons.IH[OF this]
  have "fold (\<lambda>i sizes. sizes[owner i := sizes ! owner i + 1]) inds ?sz =
      map (\<lambda>q. ?sz ! q + length (bucket owner q inds)) [0..<length sz]" by simp
  moreover have "map (\<lambda>q. ?sz ! q + length (bucket owner q inds)) [0..<length sz] =
      map (\<lambda>q. sz ! q + length (bucket owner q (i # inds))) [0..<length sz]"
    using Cons.prems by (auto simp: bucket_def nth_list_update)
  ultimately show ?case by simp
qed

lemma countOwners_buckets:
  "\<forall>i\<in>set inds. owner i < P \<Longrightarrow> countOwners P owner inds = map length (buckets P owner inds)"
  using countOwners_fold[of inds owner "replicate P 0"]
  by (simp add: countOwners_def buckets_def comp_def)

subsection \<open>Filling by cursor\<close>

lemma fillInds_fold:
  "fst (fold (\<lambda>i (buf, offs). (buf[offs ! owner i := i], offs[owner i := offs ! owner i + 1]))
          inds (buf, offs)) =
   fold put (zip (positions (map owner inds) offs) inds) buf"
  by (induction inds arbitrary: buf offs) (simp_all add: put_def)

lemma zip_positions_target:
  assumes keys: "\<forall>x\<in>set xs. key x < P"
  shows "\<forall>pv\<in>set (zip (positions (map key xs) (starts P key xs)) xs).
           fst pv < length (concat (buckets P key xs)) \<and>
           concat (buckets P key xs) ! fst pv = snd pv"
proof
  fix pv assume "pv \<in> set (zip (positions (map key xs) (starts P key xs)) xs)"
  then obtain s where s: "s < length xs"
    and pv: "pv = (positions (map key xs) (starts P key xs) ! s, xs ! s)"
    by (auto simp: set_zip positions_length)
  show "fst pv < length (concat (buckets P key xs)) \<and> concat (buckets P key xs) ! fst pv = snd pv"
    using positions_bucketed[OF keys s] by (simp add: pv length_concat_buckets[OF keys])
qed

lemma zip_positions_cover:
  assumes keys: "\<forall>x\<in>set xs. key x < P"
  shows "\<forall>x<length xs. x \<in> fst ` set (zip (positions (map key xs) (starts P key xs)) xs)"
proof (intro allI impI)
  fix x assume "x < length xs"
  from positions_cover[OF keys this] obtain s where
    s: "s < length xs" and p: "positions (map key xs) (starts P key xs) ! s = x" by blast
  have "(positions (map key xs) (starts P key xs) ! s, xs ! s)
      \<in> set (zip (positions (map key xs) (starts P key xs)) xs)"
    using s by (auto simp: set_zip positions_length)
  then show "x \<in> fst ` set (zip (positions (map key xs) (starts P key xs)) xs)"
    using p by force
qed

lemma fillInds_buckets:
  assumes keys: "\<forall>i\<in>set inds. owner i < P"
  shows "fillInds owner inds (starts P owner inds) (length inds) = concat (buckets P owner inds)"
  unfolding fillInds_def fillInds_fold
  by (rule fold_put_target[OF zip_positions_target[OF keys]])
     (simp_all add: length_concat_buckets[OF keys] zip_positions_cover[OF keys])

subsection \<open>The exchange\<close>

lemma fold_writeAt_concat:
  assumes "\<forall>q<m. offs ! q = length (concat (map seg [0..<q]))"
    and "length (concat (map seg [0..<m])) \<le> length buf"
  shows "fold (\<lambda>q buf. writeAt buf (offs ! q) (seg q)) [0..<m] buf =
         concat (map seg [0..<m]) @ drop (length (concat (map seg [0..<m]))) buf"
  using assms
proof (induction m)
  case 0
  then show ?case by simp
next
  case (Suc m)
  let ?C = "concat (map seg [0..<m])"
  have IH: "fold (\<lambda>q buf. writeAt buf (offs ! q) (seg q)) [0..<m] buf = ?C @ drop (length ?C) buf"
    using Suc by simp
  have off: "offs ! m = length ?C" using Suc.prems(1) by simp
  have "writeAt (?C @ drop (length ?C) buf) (length ?C) (seg m) =
      ?C @ seg m @ drop (length ?C + length (seg m)) buf"
    by (simp add: writeAt_def add.commute)
  then show ?case by (simp add: IH off)
qed

lemma fold_writeAt_exact:
  assumes "\<forall>q<m. offs ! q = length (concat (map seg [0..<q]))"
    and "length buf = length (concat (map seg [0..<m]))"
  shows "fold (\<lambda>q buf. writeAt buf (offs ! q) (seg q)) [0..<m] buf = concat (map seg [0..<m])"
  using fold_writeAt_concat[OF assms(1), of buf] assms(2) by simp

lemma scanFrom_segments:
  "q < m \<Longrightarrow> scanFrom 0 (map (\<lambda>q. length (seg q)) [0..<m]) ! q = length (concat (map seg [0..<q]))"
proof -
  assume q: "q < m"
  have "scanFrom 0 (map length (map seg [0..<m])) ! q = length (concat (take q (map seg [0..<m])))"
    using q by (intro scanFrom_lengths) simp
  moreover have "take q (map seg [0..<m]) = map seg [0..<q]"
    using q by (simp add: take_map take_upt)
  ultimately show ?thesis by (simp add: comp_def)
qed

subsection \<open>Reading rows by cursor\<close>

lemma readRows_positions:
  "\<forall>i\<in>set inds. owner i < length offs \<Longrightarrow>
     readRows w owner vals inds (map (\<lambda>c. c * w) offs) =
     map (\<lambda>pos. map (\<lambda>j. vals ! (pos * w + j)) [0..<w]) (positions (map owner inds) offs)"
proof (induction inds arbitrary: offs)
  case Nil
  then show ?case by simp
next
  case (Cons i inds)
  have q: "owner i < length offs" using Cons.prems by simp
  let ?f = "\<lambda>c. c * w"
  have upd: "(map ?f offs)[owner i := map ?f offs ! owner i + w] =
      map ?f (offs[owner i := offs ! owner i + 1])"
    using q by (simp add: map_update algebra_simps)
  have bound: "\<forall>i'\<in>set inds. owner i' < length (offs[owner i := offs ! owner i + 1])"
    using Cons.prems by simp
  have "readRows w owner vals (i # inds) (map ?f offs) =
      map (\<lambda>j. vals ! (map ?f offs ! owner i + j)) [0..<w]
      # readRows w owner vals inds ((map ?f offs)[owner i := map ?f offs ! owner i + w])"
    by (simp only: readRows.simps Let_def)
  also have "\<dots> = map (\<lambda>j. vals ! (map ?f offs ! owner i + j)) [0..<w]
      # map (\<lambda>pos. map (\<lambda>j. vals ! (pos * w + j)) [0..<w])
          (positions (map owner inds) (offs[owner i := offs ! owner i + 1]))"
    by (simp only: upd Cons.IH[OF bound])
  finally show ?case using q by simp
qed

subsection \<open>Packing by cursor\<close>

lemma row_write_put:
  "fold (\<lambda>j vals. vals[c + j := row ! j]) js vals = fold put (map (\<lambda>j. (c + j, row ! j)) js) vals"
  by (induction js arbitrary: vals) (simp_all add: put_def)

lemma packStep_put:
  "packStep w owner (i, row) (vals, sinds, offs) =
     (fold put (rowWrites w (offs ! owner i, row)) vals, put (offs ! owner i, i) sinds,
      offs[owner i := offs ! owner i + 1])"
  by (simp add: packStep_def Let_def row_write_put rowWrites_def put_def)

lemma pack_fold:
  "length rws = length inds \<Longrightarrow>
     (case fold (packStep w owner) (zip inds rws) (vals, sinds, offs) of
        (vals', sinds', offs') \<Rightarrow> (vals', sinds')) =
     (fold put (concat (map (rowWrites w) (zip (positions (map owner inds) offs) rws))) vals,
      fold put (zip (positions (map owner inds) offs) inds) sinds)"
proof (induction inds arbitrary: rws vals sinds offs)
  case Nil
  then show ?case by simp
next
  case (Cons i inds)
  then obtain row rws' where rws: "rws = row # rws'" and len: "length rws' = length inds"
    by (cases rws) auto
  show ?case
    by (simp add: rws packStep_put Cons.IH[OF len])
qed

subsection \<open>Unpacking\<close>

lemma set_row_put:
  assumes "iL < length loc" "length (loc ! iL) = w" "length r = w"
  shows "fold (\<lambda>j l. SetLocal l iL j (r ! j)) [0..<w] loc = loc[iL := r]"
proof -
  have gen: "k \<le> w \<Longrightarrow> fold (\<lambda>j l. SetLocal l iL j (r ! j)) [0..<k] loc =
      loc[iL := take k r @ drop k (loc ! iL)]" for k
  proof (induction k)
    case 0
    then show ?case by simp
  next
    case (Suc k)
    then have k: "k < w" by simp
    have d: "drop k (loc ! iL) = (loc ! iL) ! k # drop (Suc k) (loc ! iL)"
      using k assms(2) by (simp add: Cons_nth_drop_Suc)
    have t: "take (Suc k) r = take k r @ [r ! k]"
      using k assms(3) by (simp add: take_Suc_conv_app_nth)
    have "(take k r @ drop k (loc ! iL))[k := r ! k] = take k r @ (drop k (loc ! iL))[0 := r ! k]"
      using k assms(3) by (simp add: list_update_append)
    also have "\<dots> = take (Suc k) r @ drop (Suc k) (loc ! iL)"
      by (subst d) (simp add: t)
    finally have "(take k r @ drop k (loc ! iL))[k := r ! k] =
        take (Suc k) r @ drop (Suc k) (loc ! iL)" .
    then show ?case using Suc assms(1) by (simp add: SetLocal_def)
  qed
  show ?thesis using gen[of w] assms by simp
qed

subsection \<open>The owner function matters only on the indices\<close>

lemma countOwners_cong:
  "\<forall>i\<in>set inds. f i = g i \<Longrightarrow> countOwners P f inds = countOwners P g inds"
  unfolding countOwners_def by (rule fold_cong) auto

lemma fillInds_cong:
  "\<forall>i\<in>set inds. f i = g i \<Longrightarrow> fillInds f inds offs n = fillInds g inds offs n"
  unfolding fillInds_def by (rule arg_cong[where f = fst], rule fold_cong) auto

lemma readRows_cong:
  "\<forall>i\<in>set inds. f i = g i \<Longrightarrow> readRows w f vals inds offs = readRows w g vals inds offs"
  by (induction inds arbitrary: offs) (simp_all add: Let_def)

lemma pack_cong:
  assumes "\<forall>i\<in>set inds. f i = g i"
  shows "pack w f inds rws offs n = pack w g inds rws offs n"
proof -
  have "fold (packStep w f) (zip inds rws) st = fold (packStep w g) (zip inds rws) st" for st
  proof (rule fold_cong)
    fix x assume "x \<in> set (zip inds rws)"
    then have "fst x \<in> set inds" by (metis prod.collapse set_zip_leftD)
    then have "f (fst x) = g (fst x)" using assms by simp
    then show "packStep w f x = packStep w g x"
      by (cases x) (auto simp: packStep_def fun_eq_iff)
  qed simp_all
  then show ?thesis by (simp add: pack_def)
qed

subsection \<open>What the processes ask for and what the owners hold\<close>

lemma ask_own_lengths:
  "length (askSizes P ow I) = P" "length (askOffs P ow I) = P" "length (askInds P ow I) = P"
  "length (ownSizes P ow I) = P" "length (ownOffs P ow I) = P" "length (ownInds P ow I) = P"
  "length (askVals P ow I G) = P" "length (ownVals P ow I G) = P"
  by (simp_all add: askSizes_def askOffs_def askInds_def ownSizes_def ownOffs_def ownInds_def
      askVals_def ownVals_def)

lemma ask_own_nth:
  "p < P \<Longrightarrow> askSizes P ow I ! p = map length (buckets P ow (I p))"
  "p < P \<Longrightarrow> askOffs P ow I ! p = starts P ow (I p)"
  "p < P \<Longrightarrow> askInds P ow I ! p = concat (buckets P ow (I p))"
  "p < P \<Longrightarrow> ownSizes P ow I ! p = map (\<lambda>p'. length (bucket ow p (I p'))) [0..<P]"
  "p < P \<Longrightarrow> ownOffs P ow I ! p = scanFrom 0 (map (\<lambda>p'. length (bucket ow p (I p'))) [0..<P])"
  "p < P \<Longrightarrow> ownInds P ow I ! p = concat (map (\<lambda>p'. bucket ow p (I p')) [0..<P])"
  "p < P \<Longrightarrow> askVals P ow I G ! p = concat (map G (concat (buckets P ow (I p))))"
  "p < P \<Longrightarrow> ownVals P ow I G ! p =
      concat (map G (concat (map (\<lambda>p'. bucket ow p (I p')) [0..<P])))"
  by (simp_all add: askSizes_def askOffs_def askInds_def ownSizes_def ownOffs_def ownInds_def
      askVals_def ownVals_def)

lemma AllToAllSizes_ask: "AllToAllSizes (askSizes P ow I) = ownSizes P ow I"
  by (simp add: AllToAllSizes_def ask_own_lengths ownSizes_def ask_own_nth buckets_def
      cong: map_cong)

lemma Scan_own:
  "map (\<lambda>q. fst (Scan (ownSizes P ow I ! q))) [0..<P] = ownOffs P ow I"
  by (simp add: Scan_def ownOffs_def ask_own_nth cong: map_cong)

lemma Scan_ask:
  "map (\<lambda>p. fst (Scan (askSizes P ow I ! p))) [0..<P] = askOffs P ow I"
  by (simp add: Scan_def askOffs_def ask_own_nth starts_def cong: map_cong)

lemma Scan_own_total:
  "q < P \<Longrightarrow> snd (Scan (ownSizes P ow I ! q)) = length (ownInds P ow I ! q)"
  by (simp add: Scan_def ask_own_nth length_concat comp_def)

subsection \<open>The exchange, by segments\<close>

lemma AllToAllv_segments:
  assumes len: "length sendBufs = P"
    and seg: "\<forall>q<P. \<forall>p<P. slice (sendBufs ! q) (sendOffs ! q ! p) (sendSizes ! q ! p) = seg q p"
    and offs: "\<forall>p<P. \<forall>q<P. recvOffs ! p ! q = length (concat (map (\<lambda>q. seg q p) [0..<q]))"
    and buf: "\<forall>p<P. length (recvBufs ! p) = length (concat (map (\<lambda>q. seg q p) [0..<P]))"
  shows "AllToAllv sendBufs sendSizes sendOffs recvBufs recvOffs =
         map (\<lambda>p. concat (map (\<lambda>q. seg q p) [0..<P])) [0..<P]"
proof -
  have "fold (\<lambda>q buf. writeAt buf (recvOffs ! p ! q)
                  (slice (sendBufs ! q) (sendOffs ! q ! p) (sendSizes ! q ! p)))
          [0..<P] (recvBufs ! p) = concat (map (\<lambda>q. seg q p) [0..<P])" if p: "p < P" for p
  proof -
    have "fold (\<lambda>q buf. writeAt buf (recvOffs ! p ! q)
                  (slice (sendBufs ! q) (sendOffs ! q ! p) (sendSizes ! q ! p)))
          [0..<P] (recvBufs ! p) =
        fold (\<lambda>q buf. writeAt buf ((recvOffs ! p) ! q) (seg q p)) [0..<P] (recvBufs ! p)"
      using seg p by (intro fold_cong) auto
    also have "\<dots> = concat (map (\<lambda>q. seg q p) [0..<P])"
      using offs buf p by (intro fold_writeAt_exact) auto
    finally show ?thesis .
  qed
  then show ?thesis by (simp add: AllToAllv_def len cong: map_cong)
qed

lemma concat_map_concat:
  "concat (map (\<lambda>q. concat (map G (B q))) qs) = concat (map G (concat (map B qs)))"
  by (induction qs) simp_all

lemma length_rows_of:
  "\<forall>i\<in>set xs. length (G i) = w \<Longrightarrow> length (concat (map G xs)) = length xs * w"
  using length_concat_rows[of "map G xs" w] by simp

lemma slice_buckets:
  "q < P \<Longrightarrow> slice (concat (buckets P ow xs)) (starts P ow xs ! q) (length (buckets P ow xs ! q)) =
     bucket ow q xs"
proof -
  assume q: "q < P"
  have "starts P ow xs ! q = length (concat (take q (buckets P ow xs)))"
    unfolding starts_def using q by (intro scanFrom_lengths) (simp add: length_buckets)
  then show ?thesis using slice_concat[of q "buckets P ow xs"] q
    by (simp add: length_buckets buckets_def)
qed

text \<open>The indices travel from the processes that ask to the owners.\<close>

lemma exchange_inds:
  "AllToAllv (askInds P ow I) (askSizes P ow I) (askOffs P ow I)
     (map (\<lambda>q. replicate (snd (Scan (ownSizes P ow I ! q))) 0) [0..<P]) (ownOffs P ow I) =
   ownInds P ow I"
proof -
  have "AllToAllv (askInds P ow I) (askSizes P ow I) (askOffs P ow I)
     (map (\<lambda>q. replicate (snd (Scan (ownSizes P ow I ! q))) 0) [0..<P]) (ownOffs P ow I) =
     map (\<lambda>q. concat (map (\<lambda>p. bucket ow q (I p)) [0..<P])) [0..<P]"
  proof (rule AllToAllv_segments)
    show "length (askInds P ow I) = P" by (simp add: ask_own_lengths)
    show "\<forall>p<P. \<forall>q<P. slice (askInds P ow I ! p) (askOffs P ow I ! p ! q)
        (askSizes P ow I ! p ! q) = bucket ow q (I p)"
      using slice_buckets[of _ P ow] by (simp add: ask_own_nth length_buckets)
    show "\<forall>q<P. \<forall>p<P. ownOffs P ow I ! q ! p =
        length (concat (map (\<lambda>p. bucket ow q (I p)) [0..<p]))"
      using scanFrom_segments[of _ P "\<lambda>p. bucket ow _ (I p)"] by (simp add: ask_own_nth)
    show "\<forall>q<P. length (map (\<lambda>q. replicate (snd (Scan (ownSizes P ow I ! q))) 0) [0..<P] ! q) =
        length (concat (map (\<lambda>p. bucket ow q (I p)) [0..<P]))"
      by (simp add: Scan_def ask_own_nth length_concat comp_def)
  qed
  then show ?thesis by (simp add: ownInds_def)
qed

subsection \<open>The values, by rows\<close>

lemma scaled_offsets:
  assumes rows: "\<forall>p<P. \<forall>i\<in>set (B p). length (G i) = w" and p: "p < P"
  shows "scanFrom 0 (map (\<lambda>p. length (B p)) [0..<P]) ! p * w =
         length (concat (map (\<lambda>p. concat (map G (B p))) [0..<p]))"
proof -
  have lens: "map (\<lambda>p. length (concat (map G (B p)))) [0..<P] =
      map (\<lambda>c. c * w) (map (\<lambda>p. length (B p)) [0..<P])"
    using rows by (simp add: length_rows_of cong: map_cong)
  have "scanFrom 0 (map (\<lambda>p. length (B p)) [0..<P]) ! p * w =
      map (\<lambda>c. c * w) (scanFrom 0 (map (\<lambda>p. length (B p)) [0..<P])) ! p"
    using p by (simp add: scanFrom_length)
  also have "\<dots> = scanFrom 0 (map (\<lambda>p. length (concat (map G (B p)))) [0..<P]) ! p"
    by (simp only: scanFrom_scale lens mult_0)
  also have "\<dots> = length (concat (map (\<lambda>p. concat (map G (B p))) [0..<p]))"
    using p by (rule scanFrom_segments)
  finally show ?thesis .
qed

lemma slice_rows:
  assumes rows: "\<forall>p<P. \<forall>i\<in>set (B p). length (G i) = w" and p: "p < P"
  shows "slice (concat (map G (concat (map B [0..<P]))))
           (scanFrom 0 (map (\<lambda>p. length (B p)) [0..<P]) ! p * w) (length (B p) * w) =
         concat (map G (B p))"
proof -
  let ?bs = "map (\<lambda>p. concat (map G (B p))) [0..<P]"
  have c: "concat (map G (concat (map B [0..<P]))) = concat ?bs"
    by (simp add: concat_map_concat)
  have t: "take p ?bs = map (\<lambda>p. concat (map G (B p))) [0..<p]"
    using p by (simp add: take_map take_upt)
  have o: "scanFrom 0 (map (\<lambda>p. length (B p)) [0..<P]) ! p * w = length (concat (take p ?bs))"
    by (simp only: t scaled_offsets[OF rows p])
  have n: "length (B p) * w = length (?bs ! p)"
    using rows p length_rows_of[of "B p" G w] by simp
  have "slice (concat ?bs) (length (concat (take p ?bs))) (length (?bs ! p)) = ?bs ! p"
    using p by (intro slice_concat) simp
  then show ?thesis using p by (simp only: c o n) simp
qed

lemma set_bucket: "set (bucket ow q xs) = {x \<in> set xs. ow x = q}"
  by (auto simp: bucket_def)

lemma set_concat_buckets:
  "\<forall>x\<in>set xs. ow x < P \<Longrightarrow> set (concat (buckets P ow xs)) = set xs"
  by (auto simp: buckets_def set_bucket)

text \<open>The values travel from the owners back to the processes that asked.\<close>

lemma exchange_vals_back:
  assumes rows: "\<forall>p<P. \<forall>i\<in>set (I p). length (G i) = w \<and> ow i < P"
    and wd: "\<forall>p<P. wd p = w" and n: "\<forall>p<P. n p = length (I p)"
  shows "AllToAllv (ownVals P ow I G)
           (map (\<lambda>q. map (\<lambda>c. c * wd q) (ownSizes P ow I ! q)) [0..<P])
           (map (\<lambda>q. map (\<lambda>c. c * wd q) (ownOffs P ow I ! q)) [0..<P])
           (map (\<lambda>p. replicate (n p * wd p) 0) [0..<P])
           (map (\<lambda>p. map (\<lambda>c. c * wd p) (askOffs P ow I ! p)) [0..<P]) =
         askVals P ow I G"
proof -
  let ?seg = "\<lambda>q p. concat (map G (bucket ow q (I p)))"
  have rowsq: "\<forall>p<P. \<forall>i\<in>set (bucket ow q (I p)). length (G i) = w" for q
    using rows by (simp add: set_bucket)
  have rowsp: "\<forall>q<P. \<forall>i\<in>set (bucket ow q (I p)). length (G i) = w" if "p < P" for p
    using rows that by (simp add: set_bucket)
  have "AllToAllv (ownVals P ow I G)
           (map (\<lambda>q. map (\<lambda>c. c * wd q) (ownSizes P ow I ! q)) [0..<P])
           (map (\<lambda>q. map (\<lambda>c. c * wd q) (ownOffs P ow I ! q)) [0..<P])
           (map (\<lambda>p. replicate (n p * wd p) 0) [0..<P])
           (map (\<lambda>p. map (\<lambda>c. c * wd p) (askOffs P ow I ! p)) [0..<P]) =
      map (\<lambda>p. concat (map (\<lambda>q. ?seg q p) [0..<P])) [0..<P]"
  proof (rule AllToAllv_segments)
    show "length (ownVals P ow I G) = P" by (simp add: ask_own_lengths)
    show "\<forall>q<P. \<forall>p<P. slice (ownVals P ow I G ! q)
        (map (\<lambda>q. map (\<lambda>c. c * wd q) (ownOffs P ow I ! q)) [0..<P] ! q ! p)
        (map (\<lambda>q. map (\<lambda>c. c * wd q) (ownSizes P ow I ! q)) [0..<P] ! q ! p) = ?seg q p"
    proof (intro allI impI)
      fix q p assume q: "q < P" and p: "p < P"
      show "slice (ownVals P ow I G ! q)
        (map (\<lambda>q. map (\<lambda>c. c * wd q) (ownOffs P ow I ! q)) [0..<P] ! q ! p)
        (map (\<lambda>q. map (\<lambda>c. c * wd q) (ownSizes P ow I ! q)) [0..<P] ! q ! p) = ?seg q p"
        using slice_rows[OF rowsq p, of q] q p wd
        by (simp add: ask_own_nth scanFrom_length)
    qed
    show "\<forall>p<P. \<forall>q<P. map (\<lambda>p. map (\<lambda>c. c * wd p) (askOffs P ow I ! p)) [0..<P] ! p ! q =
        length (concat (map (\<lambda>q. ?seg q p) [0..<q]))"
    proof (intro allI impI)
      fix q p assume q: "q < P" and p: "p < P"
      have "starts P ow (I p) = scanFrom 0 (map (\<lambda>q. length (bucket ow q (I p))) [0..<P])"
        by (simp add: starts_def buckets_def comp_def)
      then show "map (\<lambda>p. map (\<lambda>c. c * wd p) (askOffs P ow I ! p)) [0..<P] ! p ! q =
        length (concat (map (\<lambda>q. ?seg q p) [0..<q]))"
        using scaled_offsets[OF rowsp[OF p] q] q p wd
        by (simp add: ask_own_nth length_starts scanFrom_length)
    qed
    show "\<forall>p<P. length (map (\<lambda>p. replicate (n p * wd p) 0) [0..<P] ! p) =
        length (concat (map (\<lambda>q. ?seg q p) [0..<P]))"
    proof (intro allI impI)
      fix p assume p: "p < P"
      have keys: "\<forall>x\<in>set (I p). ow x < P" using rows p by simp
      have "concat (map (\<lambda>q. ?seg q p) [0..<P]) = concat (map G (concat (buckets P ow (I p))))"
        by (simp add: concat_map_concat buckets_def)
      moreover have "length (concat (map G (concat (buckets P ow (I p))))) =
          length (concat (buckets P ow (I p))) * w"
        using rows p set_concat_buckets[OF keys] by (intro length_rows_of) blast
      ultimately show "length (map (\<lambda>p. replicate (n p * wd p) 0) [0..<P] ! p) =
        length (concat (map (\<lambda>q. ?seg q p) [0..<P]))"
        using p wd n by (simp add: length_concat_buckets[OF keys])
    qed
  qed
  then show ?thesis by (simp add: askVals_def concat_map_concat buckets_def)
qed

text \<open>The values travel from the processes that hold them to the owners.\<close>

lemma exchange_vals_forth:
  assumes rows: "\<forall>p<P. \<forall>i\<in>set (I p). length (G i) = w \<and> ow i < P"
    and wd: "\<forall>p<P. wd p = w"
  shows "AllToAllv (askVals P ow I G)
           (map (\<lambda>p. map (\<lambda>c. c * wd p) (askSizes P ow I ! p)) [0..<P])
           (map (\<lambda>p. map (\<lambda>c. c * wd p) (askOffs P ow I ! p)) [0..<P])
           (map (\<lambda>q. replicate (snd (Scan (ownSizes P ow I ! q)) * wd q) 0) [0..<P])
           (map (\<lambda>q. map (\<lambda>c. c * wd q) (ownOffs P ow I ! q)) [0..<P]) =
         ownVals P ow I G"
proof -
  let ?seg = "\<lambda>p q. concat (map G (bucket ow q (I p)))"
  have rowsq: "\<forall>p<P. \<forall>i\<in>set (bucket ow q (I p)). length (G i) = w" for q
    using rows by (simp add: set_bucket)
  have rowsp: "\<forall>q<P. \<forall>i\<in>set (bucket ow q (I p)). length (G i) = w" if "p < P" for p
    using rows that by (simp add: set_bucket)
  have "AllToAllv (askVals P ow I G)
           (map (\<lambda>p. map (\<lambda>c. c * wd p) (askSizes P ow I ! p)) [0..<P])
           (map (\<lambda>p. map (\<lambda>c. c * wd p) (askOffs P ow I ! p)) [0..<P])
           (map (\<lambda>q. replicate (snd (Scan (ownSizes P ow I ! q)) * wd q) 0) [0..<P])
           (map (\<lambda>q. map (\<lambda>c. c * wd q) (ownOffs P ow I ! q)) [0..<P]) =
      map (\<lambda>q. concat (map (\<lambda>p. ?seg p q) [0..<P])) [0..<P]"
  proof (rule AllToAllv_segments)
    show "length (askVals P ow I G) = P" by (simp add: ask_own_lengths)
    show "\<forall>p<P. \<forall>q<P. slice (askVals P ow I G ! p)
        (map (\<lambda>p. map (\<lambda>c. c * wd p) (askOffs P ow I ! p)) [0..<P] ! p ! q)
        (map (\<lambda>p. map (\<lambda>c. c * wd p) (askSizes P ow I ! p)) [0..<P] ! p ! q) = ?seg p q"
    proof (intro allI impI)
      fix q p assume p: "p < P" and q: "q < P"
      have st: "starts P ow (I p) = scanFrom 0 (map (\<lambda>q. length (bucket ow q (I p))) [0..<P])"
        by (simp add: starts_def buckets_def comp_def)
      show "slice (askVals P ow I G ! p)
        (map (\<lambda>p. map (\<lambda>c. c * wd p) (askOffs P ow I ! p)) [0..<P] ! p ! q)
        (map (\<lambda>p. map (\<lambda>c. c * wd p) (askSizes P ow I ! p)) [0..<P] ! p ! q) = ?seg p q"
        using slice_rows[OF rowsp[OF p] q] q p wd
        by (simp add: ask_own_nth length_starts length_buckets st[symmetric])
           (simp add: buckets_def)
    qed
    show "\<forall>q<P. \<forall>p<P. map (\<lambda>q. map (\<lambda>c. c * wd q) (ownOffs P ow I ! q)) [0..<P] ! q ! p =
        length (concat (map (\<lambda>p. ?seg p q) [0..<p]))"
    proof (intro allI impI)
      fix q p assume q: "q < P" and p: "p < P"
      show "map (\<lambda>q. map (\<lambda>c. c * wd q) (ownOffs P ow I ! q)) [0..<P] ! q ! p =
        length (concat (map (\<lambda>p. ?seg p q) [0..<p]))"
        using scaled_offsets[OF rowsq p, of q] q p wd
        by (simp add: ask_own_nth scanFrom_length)
    qed
    show "\<forall>q<P. length (map (\<lambda>q. replicate (snd (Scan (ownSizes P ow I ! q)) * wd q) 0)
                          [0..<P] ! q) =
        length (concat (map (\<lambda>p. ?seg p q) [0..<P]))"
    proof (intro allI impI)
      fix q assume q: "q < P"
      have "concat (map (\<lambda>p. ?seg p q) [0..<P]) =
          concat (map G (concat (map (\<lambda>p. bucket ow q (I p)) [0..<P])))"
        by (simp add: concat_map_concat)
      moreover have "length (concat (map G (concat (map (\<lambda>p. bucket ow q (I p)) [0..<P])))) =
          length (concat (map (\<lambda>p. bucket ow q (I p)) [0..<P])) * w"
        using rows by (intro length_rows_of) (auto simp: set_bucket)
      ultimately show "length (map (\<lambda>q. replicate (snd (Scan (ownSizes P ow I ! q)) * wd q) 0)
                          [0..<P] ! q) =
        length (concat (map (\<lambda>p. ?seg p q) [0..<P]))"
        using q wd by (simp add: Scan_def ask_own_nth length_concat comp_def)
    qed
  qed
  then show ?thesis by (simp add: ownVals_def concat_map_concat)
qed

subsection \<open>Reading the answers\<close>

lemma row_index_bound:
  assumes "a < n" "j < (w::nat)"
  shows "a * w + j < n * w"
proof -
  have "a * w + j < Suc a * w" using assms(2) by simp
  also have "\<dots> \<le> n * w" using assms(1) by (intro mult_le_mono1) simp
  finally show ?thesis .
qed

lemma rows_at_position:
  assumes keys: "\<forall>i\<in>set inds. ow i < P" and rows: "\<forall>i\<in>set inds. length (G i) = w"
    and s: "s < length inds" and j: "j < w"
  shows "concat (map G (concat (buckets P ow inds)))
           ! (positions (map ow inds) (starts P ow inds) ! s * w + j) = G (inds ! s) ! j"
proof -
  let ?B = "concat (buckets P ow inds)"
  let ?pos = "positions (map ow inds) (starts P ow inds) ! s"
  have pos: "?pos < length ?B" and at: "?B ! ?pos = inds ! s"
    using positions_bucketed[OF keys s] by (simp_all add: length_concat_buckets[OF keys])
  have "\<forall>r\<in>set (map G ?B). length r = w"
    using rows set_concat_buckets[OF keys] by auto
  from concat_rows_nth[OF this _ j, of ?pos] pos at show ?thesis by simp
qed

lemma readRows_ask:
  assumes keys: "\<forall>i\<in>set inds. ow i < P" and rows: "\<forall>i\<in>set inds. length (G i) = w"
  shows "readRows w ow (concat (map G (concat (buckets P ow inds)))) inds
           (map (\<lambda>c. c * w) (starts P ow inds)) = map G inds"
proof -
  have "readRows w ow (concat (map G (concat (buckets P ow inds)))) inds
           (map (\<lambda>c. c * w) (starts P ow inds)) =
      map (\<lambda>pos. map (\<lambda>j. concat (map G (concat (buckets P ow inds))) ! (pos * w + j)) [0..<w])
        (positions (map ow inds) (starts P ow inds))"
    using keys by (intro readRows_positions) (simp add: length_starts)
  also have "\<dots> = map G inds"
  proof (rule nth_equalityI)
    show "length (map (\<lambda>pos. map (\<lambda>j. concat (map G (concat (buckets P ow inds)))
        ! (pos * w + j)) [0..<w]) (positions (map ow inds) (starts P ow inds))) =
        length (map G inds)"
      by (simp add: positions_length)
  next
    fix s assume "s < length (map (\<lambda>pos. map (\<lambda>j. concat (map G (concat (buckets P ow inds)))
        ! (pos * w + j)) [0..<w]) (positions (map ow inds) (starts P ow inds)))"
    then have s: "s < length inds" by (simp add: positions_length)
    have len: "length (G (inds ! s)) = w" using rows s by simp
    have "map (\<lambda>j. concat (map G (concat (buckets P ow inds)))
        ! (positions (map ow inds) (starts P ow inds) ! s * w + j)) [0..<w] =
        map (\<lambda>j. G (inds ! s) ! j) [0..<w]"
      using rows_at_position[OF keys rows s] by simp
    also have "\<dots> = G (inds ! s)" using len map_nth[of "G (inds ! s)"] by simp
    finally show "map (\<lambda>pos. map (\<lambda>j. concat (map G (concat (buckets P ow inds)))
        ! (pos * w + j)) [0..<w]) (positions (map ow inds) (starts P ow inds)) ! s =
        map G inds ! s"
      using s by (simp add: positions_length)
  qed
  finally show ?thesis .
qed

subsection \<open>Packing what is sent\<close>

lemma pack_ask:
  assumes keys: "\<forall>i\<in>set inds. ow i < P" and rows: "\<forall>i\<in>set inds. length (G i) = w"
  shows "pack w ow inds (map G inds) (starts P ow inds) (length inds) =
         (concat (map G (concat (buckets P ow inds))), concat (buckets P ow inds))"
proof -
  let ?B = "concat (buckets P ow inds)"
  let ?T = "concat (map G ?B)"
  let ?pos = "positions (map ow inds) (starts P ow inds)"
  let ?n = "length inds"
  have lenB: "length ?B = ?n" by (rule length_concat_buckets[OF keys])
  have lenT: "length ?T = ?n * w"
    using rows set_concat_buckets[OF keys] length_rows_of[of ?B G w] by (simp add: lenB)
  have inds: "fold put (zip ?pos inds) (replicate ?n 0) = ?B"
    by (rule fold_put_target[OF zip_positions_target[OF keys]])
       (simp_all add: lenB zip_positions_cover[OF keys])
  have vals: "fold put (concat (map (rowWrites w) (zip ?pos (map G inds)))) (replicate (?n * w) 0)
      = ?T"
  proof (rule fold_put_target)
    show "\<forall>pv\<in>set (concat (map (rowWrites w) (zip ?pos (map G inds)))).
        fst pv < length ?T \<and> ?T ! fst pv = snd pv"
    proof
      fix pv assume "pv \<in> set (concat (map (rowWrites w) (zip ?pos (map G inds))))"
      then obtain s j where s: "s < ?n" and j: "j < w"
        and pv: "pv = (?pos ! s * w + j, G (inds ! s) ! j)"
        by (auto simp: set_zip positions_length rowWrites_def)
      have "?pos ! s < ?n" using positions_bucketed(1)[OF keys s] .
      then have "?pos ! s * w + j < ?n * w"
        using j by (rule row_index_bound)
      then show "fst pv < length ?T \<and> ?T ! fst pv = snd pv"
        using rows_at_position[OF keys rows s j] by (simp add: pv lenT)
    qed
    show "length (replicate (?n * w) (0::real)) = length ?T" by (simp add: lenT)
    show "\<forall>x<length ?T. x \<in> fst ` set (concat (map (rowWrites w) (zip ?pos (map G inds))))"
    proof (intro allI impI)
      fix x assume "x < length ?T"
      then have x: "x < ?n * w" by (simp add: lenT)
      then have w: "0 < w" by (cases w) auto
      have "x div w < ?n" using x w by (simp add: less_mult_imp_div_less)
      from positions_cover[OF keys this] obtain s where
        s: "s < ?n" and p: "?pos ! s = x div w" by blast
      have "(?pos ! s, G (inds ! s)) \<in> set (zip ?pos (map G inds))"
        using s by (auto simp: set_zip positions_length)
      moreover have "(x, G (inds ! s) ! (x mod w))
          \<in> set (rowWrites w (x div w, G (inds ! s)))"
        using w by (auto simp: rowWrites_def image_iff intro!: bexI[of _ "x mod w"])
      ultimately have "(x, G (inds ! s) ! (x mod w))
          \<in> set (concat (map (rowWrites w) (zip ?pos (map G inds))))"
        using p by auto
      then show "x \<in> fst ` set (concat (map (rowWrites w) (zip ?pos (map G inds))))"
        by force
    qed
  qed
  have "pack w ow inds (map G inds) (starts P ow inds) ?n =
      (fold put (concat (map (rowWrites w) (zip ?pos (map G inds)))) (replicate (?n * w) 0),
       fold put (zip ?pos inds) (replicate ?n 0))"
    unfolding pack_def by (rule pack_fold) simp
  then show ?thesis by (simp only: inds vals)
qed

subsection \<open>Unpacking what is received\<close>

lemma unpack_fold:
  assumes ss: "\<forall>s\<in>set ss. S ! s - flr < length T \<and>
                 (\<forall>j<w. vals ! (s * w + j) = T ! (S ! s - flr) ! j)"
    and T: "\<forall>l<length T. length (T ! l) = w"
    and loc: "length loc = length T" "\<forall>l<length T. length (loc ! l) = w"
  shows "fold (\<lambda>s loc. let i = S ! s; iLocal = i - flr
                        in fold (\<lambda>j l. SetLocal l iLocal j (vals ! (s * w + j))) [0..<w] loc)
           ss loc =
         fold put (map (\<lambda>s. (S ! s - flr, T ! (S ! s - flr))) ss) loc"
  using ss loc
proof (induction ss arbitrary: loc)
  case Nil
  then show ?case by simp
next
  case (Cons s ss)
  let ?iL = "S ! s - flr"
  have iL: "?iL < length T" and v: "\<forall>j<w. vals ! (s * w + j) = T ! ?iL ! j"
    using Cons.prems(1) by simp_all
  have "fold (\<lambda>j l. SetLocal l ?iL j (vals ! (s * w + j))) [0..<w] loc =
      fold (\<lambda>j l. SetLocal l ?iL j (T ! ?iL ! j)) [0..<w] loc"
    using v by (intro fold_cong) auto
  also have "\<dots> = loc[?iL := T ! ?iL]"
    using iL Cons.prems(2,3) T by (intro set_row_put) auto
  finally have step: "fold (\<lambda>j l. SetLocal l ?iL j (vals ! (s * w + j))) [0..<w] loc =
      put (?iL, T ! ?iL) loc" by (simp add: put_def)
  have len': "length (put (?iL, T ! ?iL) loc) = length T" using Cons.prems(2) by (simp add: length_put)
  have rows': "\<forall>l<length T. length (put (?iL, T ! ?iL) loc ! l) = w"
    using Cons.prems(2,3) T iL by (auto simp: put_nth)
  have rest: "\<forall>s\<in>set ss. S ! s - flr < length T \<and>
                 (\<forall>j<w. vals ! (s * w + j) = T ! (S ! s - flr) ! j)"
    using Cons.prems(1) by simp
  show ?case using Cons.IH[OF rest len' rows'] by (simp add: Let_def step)
qed

lemma unpack_target:
  assumes S: "\<forall>s<length S. S ! s - flr < length T \<and>
                 (\<forall>j<w. vals ! (s * w + j) = T ! (S ! s - flr) ! j)"
    and T: "\<forall>l<length T. length (T ! l) = w"
    and loc: "length loc = length T" "\<forall>l<length T. length (loc ! l) = w"
    and cover: "\<forall>l<length T. \<exists>s<length S. S ! s - flr = l"
  shows "unpack w flr S vals loc = T"
proof -
  have ss: "\<forall>s\<in>set [0..<length S]. S ! s - flr < length T \<and>
                 (\<forall>j<w. vals ! (s * w + j) = T ! (S ! s - flr) ! j)"
    using S by simp
  have "unpack w flr S vals loc =
      fold put (map (\<lambda>s. (S ! s - flr, T ! (S ! s - flr))) [0..<length S]) loc"
    unfolding unpack_def by (rule unpack_fold[OF ss T loc])
  also have "\<dots> = T"
  proof (rule fold_put_target)
    show "\<forall>pv\<in>set (map (\<lambda>s. (S ! s - flr, T ! (S ! s - flr))) [0..<length S]).
        fst pv < length T \<and> T ! fst pv = snd pv"
      using S by auto
    show "length loc = length T" by (rule loc(1))
    show "\<forall>x<length T. x \<in> fst ` set (map (\<lambda>s. (S ! s - flr, T ! (S ! s - flr))) [0..<length S])"
      using cover by force
  qed
  finally show ?thesis .
qed

subsection \<open>The container built by \<open>Pull\<close>\<close>

lemma chunks_length: "length (chunks ns xs) = length ns"
  by (induction ns arbitrary: xs) simp_all

lemma chunks_lengths: "sum_list ns \<le> length xs \<Longrightarrow> map length (chunks ns xs) = ns"
  by (induction ns arbitrary: xs) simp_all

lemma chunks_concat: "sum_list ns = length xs \<Longrightarrow> concat (chunks ns xs) = xs"
proof (induction ns arbitrary: xs)
  case Nil
  then show ?case by simp
next
  case (Cons n ns)
  then have "sum_list ns = length (drop n xs)" by simp
  from Cons.IH[OF this] show ?case by simp
qed

lemma chunks_rows: "b \<in> set (chunks ns xs) \<Longrightarrow> set b \<subseteq> set xs"
proof (induction ns arbitrary: xs)
  case Nil
  then show ?case by simp
next
  case (Cons n ns)
  then show ?case by (auto dest: in_set_takeD in_set_dropD)
qed

lemma fold_add: "fold (\<lambda>x (acc::nat). acc + f x) xs a = a + sum_list (map f xs)"
  by (induction xs arbitrary: a) simp_all

lemma rebuild_rows:
  "\<forall>r\<in>set b. length r = w \<Longrightarrow> map (\<lambda>t. map (\<lambda>j. b ! t ! j) [0..<w]) [0..<length b] = b"
proof (rule nth_equalityI)
  show "length (map (\<lambda>t. map (\<lambda>j. b ! t ! j) [0..<w]) [0..<length b]) = length b" by simp
next
  fix t assume "\<forall>r\<in>set b. length r = w"
    and "t < length (map (\<lambda>t. map (\<lambda>j. b ! t ! j) [0..<w]) [0..<length b])"
  then have t: "t < length b" and "length (b ! t) = w" by simp_all
  then show "map (\<lambda>t. map (\<lambda>j. b ! t ! j) [0..<w]) [0..<length b] ! t = b ! t"
    using map_nth[of "b ! t"] by simp
qed

lemma length_localInds: "length (localInds nodes) = sum_list (map nodeSize nodes)"
  by (simp add: localInds_def length_concat comp_def)

lemma length_pullNaturalInds: "length (pullNaturalInds info) = sum_list (walkSizes info)"
  by (simp add: pullNaturalInds_def length_localInds walkSizes_def distLocalHeights_def
      length_concat comp_def Let_def)

lemma buildNodal_width: "NodalWidth (buildNodal info h w R) = w"
  by (simp add: NodalWidth_def buildNodal_def Let_def)

lemma buildNodal_blocks:
  assumes len: "length R = sum_list (walkSizes info)"
  shows "length (take (length (infoLocalNodes info)) (chunks (walkSizes info) R)) =
           length (infoLocalNodes info)"
    and "length (drop (length (infoLocalNodes info)) (chunks (walkSizes info) R)) =
           length (tl (infoDistNodes info))"
    and "map length (take (length (infoLocalNodes info)) (chunks (walkSizes info) R)) =
           map nodeSize (infoLocalNodes info)"
    and "map length (drop (length (infoLocalNodes info)) (chunks (walkSizes info) R)) =
           distLocalHeights info"
proof -
  have ml: "map length (chunks (walkSizes info) R) = walkSizes info"
    using len by (intro chunks_lengths) simp
  show "length (take (length (infoLocalNodes info)) (chunks (walkSizes info) R)) =
           length (infoLocalNodes info)"
    by (simp add: chunks_length walkSizes_def)
  show "length (drop (length (infoLocalNodes info)) (chunks (walkSizes info) R)) =
           length (tl (infoDistNodes info))"
    by (simp add: chunks_length walkSizes_def distLocalHeights_def)
  show "map length (take (length (infoLocalNodes info)) (chunks (walkSizes info) R)) =
           map nodeSize (infoLocalNodes info)"
    by (simp add: take_map[symmetric] ml) (simp add: walkSizes_def)
  show "map length (drop (length (infoLocalNodes info)) (chunks (walkSizes info) R)) =
           distLocalHeights info"
    by (simp add: drop_map[symmetric] ml) (simp add: walkSizes_def)
qed

lemma buildNodal_localNodes:
  assumes len: "length R = sum_list (walkSizes info)"
  shows "length (localNodes (buildNodal info h w R)) = length (infoLocalNodes info)"
    and "k < length (infoLocalNodes info) \<Longrightarrow>
           localNodes (buildNodal info h w R) ! k =
           \<lparr>denseHeight = nodeSize (infoLocalNodes info ! k), denseWidth = w,
            denseRows = chunks (walkSizes info) R ! k\<rparr>"
  using buildNodal_blocks(1)[OF len]
  by (simp_all add: buildNodal_def Let_def walkSizes_def)

lemma buildNodal_distNodes:
  assumes len: "length R = sum_list (walkSizes info)"
  shows "length (distNodes (buildNodal info h w R)) = length (tl (infoDistNodes info))"
    and "k < length (tl (infoDistNodes info)) \<Longrightarrow>
           distNodes (buildNodal info h w R) ! k =
           \<lparr>nodeHeight = distSize (tl (infoDistNodes info) ! k),
            ColShift = CyclicShift (VCRank (distGrid (tl (infoDistNodes info) ! k))) 0
                         (gridSize (distGrid (tl (infoDistNodes info) ! k))),
            ColStride = gridSize (distGrid (tl (infoDistNodes info) ! k)),
            nodeLocal = chunks (walkSizes info) R ! (length (infoLocalNodes info) + k)\<rparr>"
  using buildNodal_blocks(2)[OF len]
  by (simp_all add: buildNodal_def Let_def walkSizes_def chunks_length)

lemma chunk_sizes:
  assumes len: "length R = sum_list (walkSizes info)"
  shows "k < length (infoLocalNodes info) \<Longrightarrow>
           length (chunks (walkSizes info) R ! k) = nodeSize (infoLocalNodes info ! k)"
    and "k < length (tl (infoDistNodes info)) \<Longrightarrow>
           length (chunks (walkSizes info) R ! (length (infoLocalNodes info) + k)) =
           distLocalHeights info ! k"
proof -
  have ml: "map length (chunks (walkSizes info) R) = walkSizes info"
    using len by (intro chunks_lengths) simp
  have n: "length (chunks (walkSizes info) R ! k) = walkSizes info ! k"
    if "k < length (walkSizes info)" for k
    using that nth_map[of k "chunks (walkSizes info) R" length] by (simp add: ml chunks_length)
  show "k < length (infoLocalNodes info) \<Longrightarrow>
           length (chunks (walkSizes info) R ! k) = nodeSize (infoLocalNodes info ! k)"
    using n[of k] by (simp add: walkSizes_def nth_append)
  show "k < length (tl (infoDistNodes info)) \<Longrightarrow>
           length (chunks (walkSizes info) R ! (length (infoLocalNodes info) + k)) =
           distLocalHeights info ! k"
    using n[of "length (infoLocalNodes info) + k"]
    by (simp add: walkSizes_def nth_append distLocalHeights_def)
qed

lemma buildNodal_LocalHeight:
  assumes len: "length R = sum_list (walkSizes info)"
  shows "LocalHeight (buildNodal info h w R) = sum_list (walkSizes info)"
proof -
  have l: "map denseHeight (localNodes (buildNodal info h w R)) =
      map nodeSize (infoLocalNodes info)"
    by (rule nth_equalityI) (simp_all add: buildNodal_localNodes[OF len])
  have d: "map (\<lambda>node. length (nodeLocal node)) (distNodes (buildNodal info h w R)) =
      distLocalHeights info"
    by (rule nth_equalityI)
       (simp_all add: buildNodal_distNodes[OF len] chunk_sizes[OF len],
        simp add: distLocalHeights_def)
  show ?thesis
    by (simp add: LocalHeight_def fold_add l d) (simp add: walkSizes_def)
qed

lemma buildNodal_pushNaturalInds:
  assumes len: "length R = sum_list (walkSizes info)"
  shows "pushNaturalInds info (buildNodal info h w R) = pullNaturalInds info"
proof -
  have "map2 (\<lambda>node XNode.
                     map (\<lambda>t. distOff node + t)
                       (strided (ColShift XNode) (nodeHeight XNode) (ColStride XNode)))
               (tl (infoDistNodes info)) (distNodes (buildNodal info h w R)) =
      map (\<lambda>node. map (\<lambda>t. distOff node + t)
             (strided (CyclicShift (VCRank (distGrid node)) 0 (gridSize (distGrid node)))
                (distSize node) (gridSize (distGrid node))))
        (tl (infoDistNodes info))"
    by (rule nth_equalityI) (simp_all add: buildNodal_distNodes[OF len])
  then show ?thesis
    by (simp only: pushNaturalInds_def pullNaturalInds_def Let_def)
qed

lemma buildNodal_nodalRows:
  assumes len: "length R = sum_list (walkSizes info)" and rows: "\<forall>r\<in>set R. length r = w"
  shows "nodalRows info (buildNodal info h w R) w = R"
proof -
  let ?bs = "chunks (walkSizes info) R"
  let ?nL = "length (infoLocalNodes info)"
  have lbs: "length ?bs = ?nL + length (tl (infoDistNodes info))"
    by (simp add: chunks_length walkSizes_def distLocalHeights_def)
  have brows: "\<forall>r\<in>set (?bs ! k). length r = w" if "k < length ?bs" for k
    using chunks_rows[of "?bs ! k" "walkSizes info" R] that rows by auto
  have loc: "map2 (\<lambda>node X. map (\<lambda>t. map (\<lambda>j. denseRows X ! t ! j) [0..<w]) [0..<nodeSize node])
      (infoLocalNodes info) (localNodes (buildNodal info h w R)) = take ?nL ?bs"
  proof (rule nth_equalityI)
    show "length (map2 (\<lambda>node X. map (\<lambda>t. map (\<lambda>j. denseRows X ! t ! j) [0..<w])
        [0..<nodeSize node]) (infoLocalNodes info) (localNodes (buildNodal info h w R))) =
        length (take ?nL ?bs)"
      by (simp add: buildNodal_localNodes[OF len] lbs)
  next
    fix k assume "k < length (map2 (\<lambda>node X. map (\<lambda>t. map (\<lambda>j. denseRows X ! t ! j) [0..<w])
        [0..<nodeSize node]) (infoLocalNodes info) (localNodes (buildNodal info h w R)))"
    then have k: "k < ?nL" by (simp add: buildNodal_localNodes[OF len])
    then have kb: "k < length ?bs" by (simp add: lbs)
    have "map (\<lambda>t. map (\<lambda>j. ?bs ! k ! t ! j) [0..<w]) [0..<length (?bs ! k)] = ?bs ! k"
      by (rule rebuild_rows[OF brows[OF kb]])
    then show "map2 (\<lambda>node X. map (\<lambda>t. map (\<lambda>j. denseRows X ! t ! j) [0..<w])
        [0..<nodeSize node]) (infoLocalNodes info) (localNodes (buildNodal info h w R)) ! k =
        take ?nL ?bs ! k"
      using k by (simp add: buildNodal_localNodes[OF len] chunk_sizes(1)[OF len])
  qed
  have dist: "map (\<lambda>XNode. map (\<lambda>tLoc. map (\<lambda>j. nodeLocal XNode ! tLoc ! j) [0..<w])
                              [0..<length (nodeLocal XNode)])
      (distNodes (buildNodal info h w R)) = drop ?nL ?bs"
  proof (rule nth_equalityI)
    show "length (map (\<lambda>XNode. map (\<lambda>tLoc. map (\<lambda>j. nodeLocal XNode ! tLoc ! j) [0..<w])
        [0..<length (nodeLocal XNode)]) (distNodes (buildNodal info h w R))) =
        length (drop ?nL ?bs)"
      by (simp add: buildNodal_distNodes[OF len] lbs)
  next
    fix k assume "k < length (map (\<lambda>XNode. map (\<lambda>tLoc. map (\<lambda>j. nodeLocal XNode ! tLoc ! j)
        [0..<w]) [0..<length (nodeLocal XNode)]) (distNodes (buildNodal info h w R)))"
    then have k: "k < length (tl (infoDistNodes info))"
      by (simp add: buildNodal_distNodes[OF len])
    then have kb: "?nL + k < length ?bs" by (simp add: lbs)
    have "map (\<lambda>t. map (\<lambda>j. ?bs ! (?nL + k) ! t ! j) [0..<w]) [0..<length (?bs ! (?nL + k))] =
        ?bs ! (?nL + k)"
      by (rule rebuild_rows[OF brows[OF kb]])
    then show "map (\<lambda>XNode. map (\<lambda>tLoc. map (\<lambda>j. nodeLocal XNode ! tLoc ! j)
        [0..<w]) [0..<length (nodeLocal XNode)]) (distNodes (buildNodal info h w R)) ! k =
        drop ?nL ?bs ! k"
      using k kb by (simp add: buildNodal_distNodes[OF len])
  qed
  have "nodalRows info (buildNodal info h w R) w = concat (take ?nL ?bs) @ concat (drop ?nL ?bs)"
    by (simp only: nodalRows_def loc dist)
  also have "\<dots> = concat ?bs" by (simp only: concat_append[symmetric] append_take_drop_id)
  also have "\<dots> = R" using len by (intro chunks_concat) simp
  finally show ?thesis .
qed

subsection \<open>What \<open>Pull\<close> returns\<close>

lemma numRecvIndsOf_walk:
  assumes "\<forall>node\<in>set (tl (infoDistNodes info)).
           localSize node =
             length (strided (CyclicShift (VCRank (distGrid node)) 0 (gridSize (distGrid node)))
                       (distSize node) (gridSize (distGrid node)))"
  shows "numRecvIndsOf info = sum_list (walkSizes info)"
proof -
  have "map localSize (tl (infoDistNodes info)) = distLocalHeights info"
    using assms by (simp add: distLocalHeights_def)
  then show ?thesis by (simp add: numRecvIndsOf_def walkSizes_def)
qed

lemma validTree_counts:
  assumes "validTree N infos" "p < length infos"
  shows "numRecvIndsOf (infos ! p) = length (pullNaturalInds (infos ! p))"
    and "sum_list (map nodeSize (infoLocalNodes (infos ! p))) + sum_list (distLocalHeights (infos ! p))
           = numRecvIndsOf (infos ! p)"
proof -
  have "infos ! p \<in> set infos" using assms(2) by simp
  then have "numRecvIndsOf (infos ! p) = sum_list (walkSizes (infos ! p))"
    using assms(1) by (intro numRecvIndsOf_walk) (simp add: validTree_def)
  then show "numRecvIndsOf (infos ! p) = length (pullNaturalInds (infos ! p))"
    and "sum_list (map nodeSize (infoLocalNodes (infos ! p))) + sum_list (distLocalHeights (infos ! p))
           = numRecvIndsOf (infos ! p)"
    by (simp_all add: length_pullNaturalInds walkSizes_def)
qed

lemma walk_indices:
  assumes tree: "validTree N infos" and perm: "bij_betw inverseMap {..<N} {..<N}"
    and p: "p < length infos" and i: "i \<in> set (map inverseMap (pullNaturalInds (infos ! p)))"
  shows "i < N"
proof -
  from i obtain t where t: "t \<in> set (pullNaturalInds (infos ! p))" and it: "i = inverseMap t"
    by auto
  have "t \<in> set (concat (map pullNaturalInds infos))" using t p by auto
  moreover have "set (concat (map pullNaturalInds infos)) = {..<N}"
    using tree by (simp only: validTree_def)
  ultimately have "t < N" by blast
  then show ?thesis using perm it by (auto simp: bij_betw_def)
qed

lemma vectorRow_length:
  assumes "wellDistributed N w ow Xs" "i < N"
  shows "length (vectorRow Xs ow i) = w" and "ow i < length Xs"
proof -
  show q: "ow i < length Xs" using assms by (simp add: wellDistributed_def)
  have "i - mvFirstLocalRow (Xs ! ow i) < length (mvLocal (Xs ! ow i))"
    using assms by (simp add: wellDistributed_def)
  then have "vectorRow Xs ow i \<in> set (mvLocal (Xs ! ow i))" by (simp add: vectorRow_def)
  moreover have "\<forall>r\<in>set (mvLocal (Xs ! ow i)). length r = w"
    using assms(1) q by (simp add: wellDistributed_def)
  ultimately show "length (vectorRow Xs ow i) = w" by blast
qed

lemma fulfil_rows:
  assumes w: "mvWidth X = w"
    and rows: "\<forall>i\<in>set inds. length (G i) = w \<and> mvLocal X ! (i - mvFirstLocalRow X) = G i"
  shows "fulfil X inds = concat (map G inds)"
proof -
  have "map (\<lambda>s. map (\<lambda>j. mvLocal X ! (inds ! s - mvFirstLocalRow X) ! j) [0..<mvWidth X])
      [0..<length inds] = map G inds"
  proof (rule nth_equalityI)
    show "length (map (\<lambda>s. map (\<lambda>j. mvLocal X ! (inds ! s - mvFirstLocalRow X) ! j)
        [0..<mvWidth X]) [0..<length inds]) = length (map G inds)" by simp
  next
    fix s assume "s < length (map (\<lambda>s. map (\<lambda>j. mvLocal X ! (inds ! s - mvFirstLocalRow X) ! j)
        [0..<mvWidth X]) [0..<length inds])"
    then have s: "s < length inds" by simp
    then have "length (G (inds ! s)) = w" "mvLocal X ! (inds ! s - mvFirstLocalRow X) = G (inds ! s)"
      using rows by simp_all
    then show "map (\<lambda>s. map (\<lambda>j. mvLocal X ! (inds ! s - mvFirstLocalRow X) ! j)
        [0..<mvWidth X]) [0..<length inds] ! s = map G inds ! s"
      using s w map_nth[of "G (inds ! s)"] by simp
  qed
  then show ?thesis by (simp only: fulfil_def)
qed

lemma Pull_result:
  assumes dist: "wellDistributed N w ow Xs" and tree: "validTree N infos"
    and perm: "bij_betw inverseMap {..<N} {..<N}"
    and len: "length infos = length Xs"
  shows "Pull inverseMap infos Xs =
         Inr (map (\<lambda>p. buildNodal (infos ! p) N w
                          (map (vectorRow Xs ow) (map inverseMap (pullNaturalInds (infos ! p)))))
                [0..<length Xs])"
proof -
  let ?P = "length Xs"
  let ?I = "\<lambda>p. map inverseMap (pullNaturalInds (infos ! p))"
  let ?G = "vectorRow Xs ow"
  let ?f = "\<lambda>p. mvRowOwner (Xs ! p)"
  let ?wd = "\<lambda>p. mvWidth (Xs ! p)"
  let ?n = "\<lambda>p. numRecvIndsOf (infos ! p)"
  have inN: "i < N" if "p < ?P" "i \<in> set (?I p)" for p i
    using walk_indices[OF tree perm _ that(2)] that(1) len by simp
  have rows: "\<forall>p<?P. \<forall>i\<in>set (?I p). length (?G i) = w \<and> ow i < ?P"
    using inN vectorRow_length[OF dist] by blast
  have keys: "\<forall>i\<in>set (?I p). ow i < ?P" if "p < ?P" for p using rows that by blast
  have rws: "\<forall>i\<in>set (?I p). length (?G i) = w" if "p < ?P" for p using rows that by blast
  have agree: "\<forall>i\<in>set (?I p). ?f p i = ow i" if "p < ?P" for p
    using inN[OF that] dist that by (simp add: wellDistributed_def)
  have comm: "mvCommSize (Xs ! p) = ?P" if "p < ?P" for p
    using dist that by (simp add: wellDistributed_def)
  have wd: "\<forall>p<?P. ?wd p = w" using dist by (simp add: wellDistributed_def)
  have n: "\<forall>p<?P. ?n p = length (?I p)"
    using validTree_counts(1)[OF tree] len by simp
  have chk1: "\<not> (\<exists>p\<in>set [0..<?P]. length (pullNaturalInds (infos ! p)) \<noteq> ?n p)"
    using validTree_counts(1)[OF tree] len by simp
  have chk2: "\<not> (\<exists>p\<in>set [0..<?P]. sum_list (map nodeSize (infoLocalNodes (infos ! p)))
                                     + sum_list (distLocalHeights (infos ! p)) \<noteq> ?n p)"
    using validTree_counts(2)[OF tree] len by simp
  have E1: "map (\<lambda>p. countOwners (mvCommSize (Xs ! p)) (?f p) (?I p)) [0..<?P] = askSizes ?P ow ?I"
    unfolding askSizes_def
  proof (rule map_cong[OF refl])
    fix p assume "p \<in> set [0..<?P]"
    then have p: "p < ?P" by simp
    show "countOwners (mvCommSize (Xs ! p)) (?f p) (?I p) = map length (buckets ?P ow (?I p))"
      by (simp only: comm[OF p] countOwners_cong[OF agree[OF p]] countOwners_buckets[OF keys[OF p]])
  qed
  have E3: "map (\<lambda>p. fillInds (?f p) (?I p) (askOffs ?P ow ?I ! p) (?n p)) [0..<?P] =
      askInds ?P ow ?I"
    unfolding askInds_def
  proof (rule map_cong[OF refl])
    fix p assume "p \<in> set [0..<?P]"
    then have p: "p < ?P" by simp
    have "fillInds (?f p) (?I p) (askOffs ?P ow ?I ! p) (?n p) =
        fillInds ow (?I p) (starts ?P ow (?I p)) (length (?I p))"
      using p n by (simp only: fillInds_cong[OF agree[OF p]] ask_own_nth(2)[OF p])
    then show "fillInds (?f p) (?I p) (askOffs ?P ow ?I ! p) (?n p) =
        concat (buckets ?P ow (?I p))"
      by (simp only: fillInds_buckets[OF keys[OF p]])
  qed
  have E7: "map (\<lambda>p. fulfil (Xs ! p) (ownInds ?P ow ?I ! p)) [0..<?P] = ownVals ?P ow ?I ?G"
    unfolding ownVals_def
  proof (rule map_cong[OF refl])
    fix q assume "q \<in> set [0..<?P]"
    then have q: "q < ?P" by simp
    have w: "mvWidth (Xs ! q) = w" using wd q by simp
    have "\<forall>i\<in>set (ownInds ?P ow ?I ! q).
        length (?G i) = w \<and> mvLocal (Xs ! q) ! (i - mvFirstLocalRow (Xs ! q)) = ?G i"
      using rows q by (auto simp: ask_own_nth set_bucket vectorRow_def)
    from fulfil_rows[OF w this]
    show "fulfil (Xs ! q) (ownInds ?P ow ?I ! q) =
        concat (map ?G (concat (map (\<lambda>p. bucket ow q (?I p)) [0..<?P])))"
      using q by (simp only: ask_own_nth)
  qed
  have E9: "map (\<lambda>p. buildNodal (infos ! p) (mvHeight (Xs ! p)) (?wd p)
                  (readRows (?wd p) (?f p) (askVals ?P ow ?I ?G ! p) (?I p)
                     (map (\<lambda>p. map (\<lambda>c. c * ?wd p) (askOffs ?P ow ?I ! p)) [0..<?P] ! p)))
              [0..<?P] =
      map (\<lambda>p. buildNodal (infos ! p) N w (map ?G (?I p))) [0..<?P]"
  proof (rule map_cong[OF refl])
    fix p assume "p \<in> set [0..<?P]"
    then have p: "p < ?P" by simp
    have h: "mvHeight (Xs ! p) = N" and w: "?wd p = w"
      using dist p by (simp_all add: wellDistributed_def)
    have "readRows w (?f p) (askVals ?P ow ?I ?G ! p) (?I p)
                     (map (\<lambda>p. map (\<lambda>c. c * ?wd p) (askOffs ?P ow ?I ! p)) [0..<?P] ! p) =
        readRows w ow (concat (map ?G (concat (buckets ?P ow (?I p))))) (?I p)
          (map (\<lambda>c. c * w) (starts ?P ow (?I p)))"
      using p w by (simp add: readRows_cong[OF agree[OF p]] ask_own_nth)
    also have "\<dots> = map ?G (?I p)"
      by (rule readRows_ask[OF keys[OF p] rws[OF p]])
    finally show "buildNodal (infos ! p) (mvHeight (Xs ! p)) (?wd p)
                  (readRows (?wd p) (?f p) (askVals ?P ow ?I ?G ! p) (?I p)
                     (map (\<lambda>p. map (\<lambda>c. c * ?wd p) (askOffs ?P ow ?I ! p)) [0..<?P] ! p)) =
        buildNodal (infos ! p) N w (map ?G (?I p))"
      by (simp only: h w)
  qed
  show ?thesis
    unfolding Pull_def Let_def
    by (simp only: chk1 chk2 if_False E1 Scan_ask E3 AllToAllSizes_ask Scan_own exchange_inds E7
        exchange_vals_back[OF rows wd n] E9)
qed

subsection \<open>What the owners receive\<close>

lemma fitTo_exact: "n = length xs \<Longrightarrow> fitTo n xs = xs"
  by (simp add: fitTo_def)

lemma ownInds_filter:
  assumes len: "length infos = P" and q: "q < P"
  shows "ownInds P ow (\<lambda>p. map inverseMap (pullNaturalInds (infos ! p))) ! q =
         filter (\<lambda>i. ow i = q) (map inverseMap (concat (map pullNaturalInds infos)))"
proof -
  have "map (\<lambda>p. map inverseMap (pullNaturalInds (infos ! p))) [0..<P] =
      map (map inverseMap) (map pullNaturalInds infos)"
    using len by (intro nth_equalityI) simp_all
  then have "map inverseMap (concat (map pullNaturalInds infos)) =
      concat (map (\<lambda>p. map inverseMap (pullNaturalInds (infos ! p))) [0..<P])"
    by (simp only: map_concat)
  then show ?thesis using q by (simp add: ask_own_nth bucket_def filter_concat comp_def)
qed

lemma owned_rows:
  assumes dist: "wellDistributed N w ow Xs" and q: "q < length Xs"
  shows "{i. i < N \<and> ow i = q} = (\<lambda>l. mvFirstLocalRow (Xs ! q) + l) ` {..<length (mvLocal (Xs ! q))}"
proof (intro set_eqI iffI)
  fix i assume "i \<in> {i. i < N \<and> ow i = q}"
  then have i: "i < N" "ow i = q" by simp_all
  then have "mvFirstLocalRow (Xs ! q) \<le> i" "i - mvFirstLocalRow (Xs ! q) < length (mvLocal (Xs ! q))"
    using dist by (auto simp: wellDistributed_def)
  then have "i = mvFirstLocalRow (Xs ! q) + (i - mvFirstLocalRow (Xs ! q))"
    and "i - mvFirstLocalRow (Xs ! q) \<in> {..<length (mvLocal (Xs ! q))}" by simp_all
  then show "i \<in> (\<lambda>l. mvFirstLocalRow (Xs ! q) + l) ` {..<length (mvLocal (Xs ! q))}"
    by (rule image_eqI)
next
  fix i assume "i \<in> (\<lambda>l. mvFirstLocalRow (Xs ! q) + l) ` {..<length (mvLocal (Xs ! q))}"
  then obtain l where l: "l < length (mvLocal (Xs ! q))" and i: "i = mvFirstLocalRow (Xs ! q) + l"
    by auto
  have "mvFirstLocalRow (Xs ! q) + l < N \<and> ow (mvFirstLocalRow (Xs ! q) + l) = q"
    using dist q l by (simp add: wellDistributed_def)
  then show "i \<in> {i. i < N \<and> ow i = q}" using i by simp
qed

lemma ownInds_owned:
  assumes dist: "wellDistributed N w ow Xs" and tree: "validTree N infos"
    and perm: "bij_betw inverseMap {..<N} {..<N}"
    and len: "length infos = length Xs" and q: "q < length Xs"
  shows "distinct (ownInds (length Xs) ow (\<lambda>p. map inverseMap (pullNaturalInds (infos ! p))) ! q)"
    and "set (ownInds (length Xs) ow (\<lambda>p. map inverseMap (pullNaturalInds (infos ! p))) ! q) =
           {i. i < N \<and> ow i = q}"
    and "length (ownInds (length Xs) ow (\<lambda>p. map inverseMap (pullNaturalInds (infos ! p))) ! q) =
           length (mvLocal (Xs ! q))"
proof -
  let ?S = "ownInds (length Xs) ow (\<lambda>p. map inverseMap (pullNaturalInds (infos ! p))) ! q"
  let ?W = "concat (map pullNaturalInds infos)"
  have S: "?S = filter (\<lambda>i. ow i = q) (map inverseMap ?W)"
    by (rule ownInds_filter[OF len q])
  have dW: "distinct ?W" and sW: "set ?W = {..<N}" using tree by (simp_all only: validTree_def)
  have inj: "inj_on inverseMap (set ?W)" using perm sW by (simp add: bij_betw_def)
  have img: "inverseMap ` set ?W = {..<N}" using perm sW by (simp add: bij_betw_def)
  show d: "distinct ?S" using dW inj by (simp add: S distinct_map)
  show s: "set ?S = {i. i < N \<and> ow i = q}" using img by (auto simp: S)
  have "length ?S = card (set ?S)" using d by (simp add: distinct_card)
  also have "\<dots> = card ((\<lambda>l. mvFirstLocalRow (Xs ! q) + l) ` {..<length (mvLocal (Xs ! q))})"
    by (simp only: s owned_rows[OF dist q])
  also have "\<dots> = length (mvLocal (Xs ! q))"
    by (simp add: card_image)
  finally show "length ?S = length (mvLocal (Xs ! q))" .
qed

lemma unpack_owned:
  assumes dist: "wellDistributed N w ow Xs" and tree: "validTree N infos"
    and perm: "bij_betw inverseMap {..<N} {..<N}"
    and len: "length infos = length Xs" and q: "q < length Xs"
    and loc: "map length loc = map length (mvLocal (Xs ! q))"
  shows "unpack w (mvFirstLocalRow (Xs ! q))
           (ownInds (length Xs) ow (\<lambda>p. map inverseMap (pullNaturalInds (infos ! p))) ! q)
           (ownVals (length Xs) ow (\<lambda>p. map inverseMap (pullNaturalInds (infos ! p)))
              (vectorRow Xs ow) ! q) loc =
         mvLocal (Xs ! q)"
proof (rule unpack_target)
  let ?I = "\<lambda>p. map inverseMap (pullNaturalInds (infos ! p))"
  let ?S = "ownInds (length Xs) ow ?I ! q"
  let ?T = "mvLocal (Xs ! q)"
  let ?flr = "mvFirstLocalRow (Xs ! q)"
  let ?G = "vectorRow Xs ow"
  note own = ownInds_owned[OF dist tree perm len q]
  have Trows: "\<forall>r\<in>set ?T. length r = w" using dist q by (simp add: wellDistributed_def)
  have mem: "?S ! s < N \<and> ow (?S ! s) = q" if "s < length ?S" for s
    using own(2) nth_mem[OF that] by blast
  have at: "?S ! s - ?flr < length ?T \<and> ?G (?S ! s) = ?T ! (?S ! s - ?flr)"
    if "s < length ?S" for s
    using mem[OF that] dist by (auto simp: wellDistributed_def vectorRow_def)
  have vals: "ownVals (length Xs) ow ?I ?G ! q = concat (map ?G ?S)"
    using q by (simp add: ask_own_nth)
  have Grows: "\<forall>r\<in>set (map ?G ?S). length r = w"
  proof
    fix r assume "r \<in> set (map ?G ?S)"
    then obtain i where "i \<in> set ?S" "r = ?G i" by auto
    then show "length r = w" using own(2) vectorRow_length(1)[OF dist] by auto
  qed
  show "\<forall>s<length ?S. ?S ! s - ?flr < length ?T \<and>
      (\<forall>j<w. ownVals (length Xs) ow ?I ?G ! q ! (s * w + j) = ?T ! (?S ! s - ?flr) ! j)"
  proof (intro allI impI conjI)
    fix s assume s: "s < length ?S"
    show "?S ! s - ?flr < length ?T" using at[OF s] by simp
    fix j assume j: "j < w"
    have "concat (map ?G ?S) ! (s * w + j) = map ?G ?S ! s ! j"
      using s j by (intro concat_rows_nth[OF Grows]) simp_all
    then show "ownVals (length Xs) ow ?I ?G ! q ! (s * w + j) = ?T ! (?S ! s - ?flr) ! j"
      using at[OF s] s by (simp add: vals)
  qed
  show "\<forall>l<length ?T. length (?T ! l) = w" using Trows by simp
  show "length loc = length ?T" using loc by (metis length_map)
  show "\<forall>l<length ?T. length (loc ! l) = w"
  proof (intro allI impI)
    fix l assume l: "l < length ?T"
    then have "l < length loc" using loc by (metis length_map)
    then have "length (loc ! l) = map length loc ! l" by simp
    also have "\<dots> = length (?T ! l)" using l by (simp add: loc)
    finally show "length (loc ! l) = w" using Trows l by simp
  qed
  show "\<forall>l<length ?T. \<exists>s<length ?S. ?S ! s - ?flr = l"
  proof (intro allI impI)
    fix l assume l: "l < length ?T"
    then have "?flr + l \<in> {i. i < N \<and> ow i = q}"
      by (simp only: owned_rows[OF dist q]) simp
    then have "?flr + l \<in> set ?S" by (simp only: own(2))
    then obtain s where "s < length ?S" "?S ! s = ?flr + l" by (auto simp: in_set_conv_nth)
    then show "\<exists>s<length ?S. ?S ! s - ?flr = l" by auto
  qed
qed

subsection \<open>What \<open>Push\<close> returns on what \<open>Pull\<close> built\<close>

lemma Push_result:
  assumes dist: "wellDistributed N w ow Xs" and tree: "validTree N infos"
    and perm: "bij_betw inverseMap {..<N} {..<N}"
    and len: "length infos = length Xs" and lenIn: "length Xin = length Xs"
    and lay: "\<forall>p<length Xs. sameLayout N ow (resize (Xin ! p) N w) (Xs ! p)"
    and Vs: "Vs = map (\<lambda>p. buildNodal (infos ! p) N w
                          (map (vectorRow Xs ow) (map inverseMap (pullNaturalInds (infos ! p)))))
                   [0..<length Xs]"
  shows "Push resize inverseMap infos Vs Xin =
         Inr (map (\<lambda>p. (resize (Xin ! p) N w)\<lparr>mvLocal := mvLocal (Xs ! p)\<rparr>) [0..<length Xs])"
proof -
  let ?P = "length Xs"
  let ?I = "\<lambda>p. map inverseMap (pullNaturalInds (infos ! p))"
  let ?G = "vectorRow Xs ow"
  let ?ht = "\<lambda>p. distSize (last (infoDistNodes (infos ! p)))
                  + distOff (last (infoDistNodes (infos ! p)))"
  let ?wd = "\<lambda>p. NodalWidth (Vs ! p)"
  let ?X = "\<lambda>p. resize (Xin ! p) (?ht p) (?wd p)"
  let ?f = "\<lambda>p. mvRowOwner (?X p)"
  let ?n = "\<lambda>p. LocalHeight (Vs ! p)"
  let ?I' = "\<lambda>p. map inverseMap (fitTo (?n p) (pushNaturalInds (infos ! p) (Vs ! p)))"
  have inN: "i < N" if "p < ?P" "i \<in> set (?I p)" for p i
    using walk_indices[OF tree perm _ that(2)] that(1) len by simp
  have rows: "\<forall>p<?P. \<forall>i\<in>set (?I p). length (?G i) = w \<and> ow i < ?P"
    using inN vectorRow_length[OF dist] by blast
  have keys: "\<forall>i\<in>set (?I p). ow i < ?P" if "p < ?P" for p using rows that by blast
  have rws: "\<forall>i\<in>set (?I p). length (?G i) = w" if "p < ?P" for p using rows that by blast
  have Vp: "Vs ! p = buildNodal (infos ! p) N w (map ?G (?I p))" if "p < ?P" for p
    using that by (simp add: Vs)
  have info: "infos ! p \<in> set infos" if "p < ?P" for p using that len by simp
  have ht: "?ht p = N" if "p < ?P" for p
    using tree info[OF that] by (simp add: validTree_def)
  have wd: "\<forall>p<?P. ?wd p = w" by (simp add: Vp buildNodal_width)
  have X: "?X p = resize (Xin ! p) N w" if "p < ?P" for p
    using ht[OF that] wd that by simp
  have walk: "length (map ?G (?I p)) = sum_list (walkSizes (infos ! p))" for p
    by (simp add: length_pullNaturalInds)
  have n: "?n p = length (?I p)" if "p < ?P" for p
    by (simp add: Vp[OF that] buildNodal_LocalHeight[OF walk] length_pullNaturalInds del: map_map)
  have I': "?I' p = ?I p" if "p < ?P" for p
    using n[OF that]
    by (simp add: Vp[OF that] buildNodal_pushNaturalInds[OF walk] fitTo_exact del: map_map)
  have agree: "\<forall>i\<in>set (?I p). ?f p i = ow i" if "p < ?P" for p
    using inN[OF that] lay that by (simp add: X[OF that] sameLayout_def)
  have comm: "mvCommSize (?X p) = ?P" if "p < ?P" for p
    using lay dist that by (simp add: X[OF that] sameLayout_def wellDistributed_def)
  have flr: "mvFirstLocalRow (?X p) = mvFirstLocalRow (Xs ! p)" if "p < ?P" for p
    using lay that by (simp add: X[OF that] sameLayout_def)
  have loc: "map length (mvLocal (?X p)) = map length (mvLocal (Xs ! p))" if "p < ?P" for p
    using lay that by (simp add: X[OF that] sameLayout_def)
  have nrows: "nodalRows (infos ! p) (Vs ! p) (?wd p) = map ?G (?I p)" if "p < ?P" for p
  proof -
    have "\<forall>r\<in>set (map ?G (?I p)). length r = w" using rws[OF that] by simp
    from buildNodal_nodalRows[OF walk this] show ?thesis
      by (simp only: Vp[OF that] buildNodal_width)
  qed
  have chk0: "\<not> (\<exists>p\<in>set [0..<?P]. infoDistNodes (infos ! p) = [])"
    using tree info by (simp add: validTree_def)
  have P1: "map (\<lambda>p. countOwners (mvCommSize (?X p)) (?f p) (?I' p)) [0..<?P] =
      askSizes ?P ow ?I"
    unfolding askSizes_def
  proof (rule map_cong[OF refl])
    fix p assume "p \<in> set [0..<?P]"
    then have p: "p < ?P" by simp
    show "countOwners (mvCommSize (?X p)) (?f p) (?I' p) = map length (buckets ?P ow (?I p))"
      by (simp only: comm[OF p] I'[OF p] countOwners_cong[OF agree[OF p]]
          countOwners_buckets[OF keys[OF p]])
  qed
  have packed: "pack (?wd p) (?f p) (?I' p) (nodalRows (infos ! p) (Vs ! p) (?wd p))
      (askOffs ?P ow ?I ! p) (?n p) =
      (concat (map ?G (concat (buckets ?P ow (?I p)))), concat (buckets ?P ow (?I p)))"
    if p: "p < ?P" for p
  proof -
    have w: "?wd p = w" using wd p by simp
    have "pack (?wd p) (?f p) (?I' p) (nodalRows (infos ! p) (Vs ! p) (?wd p))
        (askOffs ?P ow ?I ! p) (?n p) =
        pack (?wd p) (?f p) (?I p) (map ?G (?I p)) (askOffs ?P ow ?I ! p) (?n p)"
      by (simp only: nrows[OF p] I'[OF p])
    also have "\<dots> = pack w (?f p) (?I p) (map ?G (?I p)) (starts ?P ow (?I p)) (length (?I p))"
      by (simp only: n[OF p] ask_own_nth(2)[OF p] w)
    also have "\<dots> = pack w ow (?I p) (map ?G (?I p)) (starts ?P ow (?I p)) (length (?I p))"
      by (rule pack_cong[OF agree[OF p]])
    also have "\<dots> = (concat (map ?G (concat (buckets ?P ow (?I p)))),
        concat (buckets ?P ow (?I p)))"
      by (rule pack_ask[OF keys[OF p] rws[OF p]])
    finally show ?thesis .
  qed
  have P3: "map (\<lambda>p. fst (pack (?wd p) (?f p) (?I' p) (nodalRows (infos ! p) (Vs ! p) (?wd p))
      (askOffs ?P ow ?I ! p) (?n p))) [0..<?P] = askVals ?P ow ?I ?G"
    unfolding askVals_def by (rule map_cong[OF refl]) (simp add: packed)
  have P4: "map (\<lambda>p. snd (pack (?wd p) (?f p) (?I' p) (nodalRows (infos ! p) (Vs ! p) (?wd p))
      (askOffs ?P ow ?I ! p) (?n p))) [0..<?P] = askInds ?P ow ?I"
    unfolding askInds_def by (rule map_cong[OF refl]) (simp add: packed)
  have chk: "\<not> (\<exists>p\<in>set [0..<?P]. snd (Scan (ownSizes ?P ow ?I ! p)) \<noteq> length (mvLocal (?X p)))"
  proof -
    have "snd (Scan (ownSizes ?P ow ?I ! p)) = length (mvLocal (?X p))" if p: "p < ?P" for p
    proof -
      have "length (mvLocal (?X p)) = length (mvLocal (Xs ! p))"
        using loc[OF p] by (metis length_map)
      then show ?thesis
        by (simp only: Scan_own_total[OF p] ownInds_owned(3)[OF dist tree perm len p])
    qed
    then show ?thesis by simp
  qed
  have P9: "map (\<lambda>p. (?X p)\<lparr>mvLocal :=
                   unpack (?wd p) (mvFirstLocalRow (?X p)) (ownInds ?P ow ?I ! p)
                     (ownVals ?P ow ?I ?G ! p) (mvLocal (?X p))\<rparr>) [0..<?P] =
      map (\<lambda>p. (resize (Xin ! p) N w)\<lparr>mvLocal := mvLocal (Xs ! p)\<rparr>) [0..<?P]"
  proof (rule map_cong[OF refl])
    fix p assume "p \<in> set [0..<?P]"
    then have p: "p < ?P" by simp
    have w: "?wd p = w" using wd p by simp
    have "unpack (?wd p) (mvFirstLocalRow (?X p)) (ownInds ?P ow ?I ! p)
                     (ownVals ?P ow ?I ?G ! p) (mvLocal (?X p)) =
        unpack w (mvFirstLocalRow (Xs ! p)) (ownInds ?P ow ?I ! p)
                     (ownVals ?P ow ?I ?G ! p) (mvLocal (?X p))"
      by (simp only: flr[OF p]) (simp only: w)
    also have "\<dots> = mvLocal (Xs ! p)"
      by (rule unpack_owned[OF dist tree perm len p loc[OF p]])
    finally have "unpack (?wd p) (mvFirstLocalRow (?X p)) (ownInds ?P ow ?I ! p)
                     (ownVals ?P ow ?I ?G ! p) (mvLocal (?X p)) = mvLocal (Xs ! p)" .
    then show "(?X p)\<lparr>mvLocal :=
                   unpack (?wd p) (mvFirstLocalRow (?X p)) (ownInds ?P ow ?I ! p)
                     (ownVals ?P ow ?I ?G ! p) (mvLocal (?X p))\<rparr> =
        (resize (Xin ! p) N w)\<lparr>mvLocal := mvLocal (Xs ! p)\<rparr>"
      by (simp only: X[OF p])
  qed
  show ?thesis
    unfolding Push_def Let_def lenIn
    by (simp only: chk0 chk if_False P1 Scan_ask P3 P4 AllToAllSizes_ask Scan_own exchange_inds
        exchange_vals_forth[OF rows wd] P9)
qed

text \<open>
  C1. \<open>Push\<close> after \<open>Pull\<close> reproduces the vector. For a flat vector \<open>Xs\<close> of height
  \<open>N\<close> and width \<open>w\<close> distributed over any number of processes, the metadata of a valid
  elimination tree over the \<open>N\<close> indices, and an ordering \<open>inverseMap\<close> that permutes
  them, \<open>Pull\<close> returns a nodal multi-vector, and \<open>Push\<close> of that multi-vector into any
  vector whose resize has the layout of \<open>Xs\<close> returns, on every process, the resized
  vector holding exactly the local rows of \<open>Xs\<close>.
\<close>

theorem Push_after_Pull:
  assumes dist: "wellDistributed N w ow Xs" and tree: "validTree N infos"
    and perm: "bij_betw inverseMap {..<N} {..<N}"
    and len: "length infos = length Xs" and lenIn: "length Xin = length Xs"
    and lay: "\<forall>p<length Xs. sameLayout N ow (resize (Xin ! p) N w) (Xs ! p)"
  shows "\<exists>Vs. Pull inverseMap infos Xs = Inr Vs \<and>
           Push resize inverseMap infos Vs Xin =
             Inr (map (\<lambda>p. (resize (Xin ! p) N w)\<lparr>mvLocal := mvLocal (Xs ! p)\<rparr>)
                    [0..<length Xs])"
proof (intro exI conjI)
  show "Pull inverseMap infos Xs =
      Inr (map (\<lambda>p. buildNodal (infos ! p) N w
                      (map (vectorRow Xs ow) (map inverseMap (pullNaturalInds (infos ! p)))))
             [0..<length Xs])"
    by (rule Pull_result[OF dist tree perm len])
  show "Push resize inverseMap infos
      (map (\<lambda>p. buildNodal (infos ! p) N w
                 (map (vectorRow Xs ow) (map inverseMap (pullNaturalInds (infos ! p)))))
         [0..<length Xs]) Xin =
      Inr (map (\<lambda>p. (resize (Xin ! p) N w)\<lparr>mvLocal := mvLocal (Xs ! p)\<rparr>) [0..<length Xs])"
    by (rule Push_result[where resize = resize and Xin = Xin, OF dist tree perm len lenIn lay],
        rule refl)
qed

lemma upt_4: "[0..<4] = [0, 1, 2, 3]" "[0..<2] = [0, 1]" "[0..<1] = [0]"
  by (simp_all add: upt_rec)

lemma less_4: "(\<forall>i<4. Q i) \<longleftrightarrow> Q 0 \<and> Q 1 \<and> Q 2 \<and> Q (3::nat)"
proof -
  have "{..<4::nat} = {0, 1, 2, 3}" by auto
  then have "(\<forall>i<4. Q i) \<longleftrightarrow> (\<forall>i\<in>{0, 1, 2, 3}. Q i)" by (metis lessThan_iff)
  then show ?thesis by simp
qed

lemma less_2: "(\<forall>i<2. Q i) \<longleftrightarrow> Q 0 \<and> Q (1::nat)"
proof -
  have "{..<2::nat} = {0, 1}" by auto
  then have "(\<forall>i<2. Q i) \<longleftrightarrow> (\<forall>i\<in>{0, 1}. Q i)" by (metis lessThan_iff)
  then show ?thesis by simp
qed

lemma example_walk:
  "pullNaturalInds (exampleTree ! 0) = [0, 2]" "pullNaturalInds (exampleTree ! 1) = [1, 3]"
  "map pullNaturalInds exampleTree = [[0, 2], [1, 3]]"
  by (simp_all add: exampleTree_def pullNaturalInds_def localInds_def strided_def CyclicShift_def
      upt_4)

lemma example_wellDistributed: "wellDistributed 4 2 exampleOwner exampleVector"
  by (simp add: wellDistributed_def exampleVector_def less_4 less_2 exampleOwner_def
      nth_Cons')

lemma example_validTree: "validTree 4 exampleTree"
proof -
  have "{..<4::nat} = {0, 2, 1, 3}" by auto
  then show ?thesis
    unfolding validTree_def example_walk
    by (simp add: exampleTree_def strided_def CyclicShift_def upt_4)
qed

lemma example_permutation: "bij_betw exampleMap {..<4} {..<4}"
proof -
  have s: "{..<4::nat} = {0, 1, 2, 3}" by auto
  show ?thesis
    unfolding bij_betw_def s by (simp add: exampleMap_def inj_on_def) auto
qed

lemma example_layout:
  "\<forall>p<length exampleVector.
     sameLayout 4 exampleOwner (exampleResize (exampleTarget ! p) 4 2) (exampleVector ! p)"
  by (simp add: sameLayout_def exampleResize_def exampleTarget_def exampleVector_def less_2
      nth_Cons')

lemma example_outcome:
  "map (\<lambda>p. (exampleResize (exampleTarget ! p) 4 2)\<lparr>mvLocal := mvLocal (exampleVector ! p)\<rparr>)
     [0..<length exampleVector] = exampleVector"
  by (simp add: exampleResize_def exampleTarget_def exampleVector_def upt_4)

text \<open>
  The example on two processes: its vector, tree and ordering are valid, and the round
  trip into the cleared target returns the vector.
\<close>

theorem Push_after_Pull_witness:
  "\<exists>Vs. Pull exampleMap exampleTree exampleVector = Inr Vs \<and>
        Push exampleResize exampleMap exampleTree Vs exampleTarget = Inr exampleVector"
  using Push_after_Pull[where resize = exampleResize and Xin = exampleTarget,
      OF example_wellDistributed example_validTree example_permutation _ _ example_layout]
  by (simp only: example_outcome) (simp add: exampleTree_def exampleVector_def exampleTarget_def)



section \<open>The triangular solve\<close>

lemma Matrix_eqI:
  fixes A B :: Matrix
  assumes "Height A = Height B" "Width A = Width B" "\<And>i j. Get A i j = Get B i j"
  shows "A = B"
  using assms by (intro Matrix.equality) (auto simp: fun_eq_iff)

lemma sameOffDiagonal_refl: "sameOffDiagonal U U"
  by (simp add: sameOffDiagonal_def)

lemma sameOffDiagonal_shift:
  "sameOffDiagonal U0 U \<Longrightarrow> sameOffDiagonal U0 (ShiftDiagonal (SetDiagonal U d) a)"
  by (auto simp: sameOffDiagonal_def ShiftDiagonal_def SetDiagonal_def)

lemma columnStep_U:
  "columnStep smallNum bigNum cNorm d n shifts j (U, X, sc) = (U1, X1, sc1) \<Longrightarrow>
     U1 = ShiftDiagonal (SetDiagonal U d) (- (shifts ! j))"
  by (auto simp: columnStep_def Let_def split: prod.splits)

lemma fold_columnStep_sameOffDiagonal:
  "sameOffDiagonal U0 U \<Longrightarrow>
   fold (columnStep smallNum bigNum cNorm d n shifts) js (U, X, sc) = (U1, X1, sc1) \<Longrightarrow>
   sameOffDiagonal U0 U1"
proof (induction js arbitrary: U X sc)
  case Nil
  then show ?case by simp
next
  case (Cons j js)
  obtain Ua Xa sa where step: "columnStep smallNum bigNum cNorm d n shifts j (U, X, sc) = (Ua, Xa, sa)"
    by (cases "columnStep smallNum bigNum cNorm d n shifts j (U, X, sc)") auto
  have "sameOffDiagonal U0 Ua"
    unfolding columnStep_U[OF step] by (rule sameOffDiagonal_shift[OF Cons.prems(1)])
  moreover have "fold (columnStep smallNum bigNum cNorm d n shifts) js (Ua, Xa, sa) = (U1, X1, sc1)"
    using Cons.prems(2) step by simp
  ultimately show ?case by (rule Cons.IH)
qed

lemma SetDiagonal_restores:
  assumes "sameOffDiagonal U0 U"
  shows "SetDiagonal U (GetDiagonal U0) = U0"
proof (rule Matrix_eqI)
  show "Height (SetDiagonal U (GetDiagonal U0)) = Height U0"
    and "Width (SetDiagonal U (GetDiagonal U0)) = Width U0"
    using assms by (simp_all add: SetDiagonal_def sameOffDiagonal_def)
  fix i j
  from assms have hw: "Height U = Height U0" "Width U = Width U0"
    and off: "i = j \<and> i < min (Height U0) (Width U0) \<or> Get U i j = Get U0 i j"
    by (auto simp: sameOffDiagonal_def)
  show "Get (SetDiagonal U (GetDiagonal U0)) i j = Get U0 i j"
    using off by (auto simp: SetDiagonal_def GetDiagonal_def hw)
qed

lemma MSDBS_result:
  assumes "Height U = Width U" "Width U = Height X" "length shifts = Width X"
  shows "\<exists>U1 X1 sc1.
           fold (columnStep (fst (OverflowParameters M)) (snd (OverflowParameters M))
                   (columnNorms U (Height U)) (GetDiagonal U) (Height U) shifts)
                [1..<length shifts] (U, X, Ones (length shifts)) = (U1, X1, sc1) \<and>
           MultiShiftDiagonalBlockSolve M U shifts X = Inr (U, X1, sc1)"
proof -
  obtain U1 X1 sc1 where f: "fold (columnStep (fst (OverflowParameters M)) (snd (OverflowParameters M))
                   (columnNorms U (Height U)) (GetDiagonal U) (Height U) shifts)
                [1..<length shifts] (U, X, Ones (length shifts)) = (U1, X1, sc1)"
    using prod_cases3 by blast
  have "sameOffDiagonal U U1"
    by (rule fold_columnStep_sameOffDiagonal[OF sameOffDiagonal_refl f])
  then have "SetDiagonal U1 (GetDiagonal U) = U" by (rule SetDiagonal_restores)
  then have "MultiShiftDiagonalBlockSolve M U shifts X = Inr (U, X1, sc1)"
    using assms f by (simp add: MultiShiftDiagonalBlockSolve_def Let_def case_prod_unfold)
  with f show ?thesis by blast
qed

lemma MSDBS_Inr_iff:
  "(\<exists>r. MultiShiftDiagonalBlockSolve M U shifts X = Inr r) \<longleftrightarrow>
     Height U = Width U \<and> Width U = Height X \<and> length shifts = Width X"
  by (auto simp: MultiShiftDiagonalBlockSolve_def Let_def case_prod_unfold)



















text \<open>
  C10. \<open>MultiShiftDiagonalBlockSolve\<close> returns with \<open>U\<close> equal to its value at entry: on
  inputs that pass its dimension checks it returns, and whenever it returns the \<open>U\<close> it
  hands back is the \<open>U\<close> it was given; after any number of columns of its loop every
  off-diagonal entry of \<open>U\<close> still has its value at entry.
\<close>

theorem MultiShiftDiagonalBlockSolve_restores_U:
  "(Height U = Width U \<and> Width U = Height X \<and> length shifts = Width X \<longrightarrow>
      (\<exists>X' scales'. MultiShiftDiagonalBlockSolve M U shifts X = Inr (U, X', scales')))
   \<and> (MultiShiftDiagonalBlockSolve M U shifts X = Inr (U', X', scales') \<longrightarrow> U' = U)
   \<and> (fold (columnStep smallNum bigNum cNorm (GetDiagonal U) n shifts) js (U, X, scales)
         = (U1, X1, scales1) \<and> i \<noteq> j \<longrightarrow> Get U1 i j = Get U i j)"
proof (intro conjI impI)
  assume "Height U = Width U \<and> Width U = Height X \<and> length shifts = Width X"
  then show "\<exists>X' scales'. MultiShiftDiagonalBlockSolve M U shifts X = Inr (U, X', scales')"
    using MSDBS_result[of U X shifts M] by blast
next
  assume r: "MultiShiftDiagonalBlockSolve M U shifts X = Inr (U', X', scales')"
  then have "Height U = Width U" "Width U = Height X" "length shifts = Width X"
    using MSDBS_Inr_iff[of M U shifts X] by auto
  from MSDBS_result[OF this, of M] r show "U' = U" by auto
next
  assume "fold (columnStep smallNum bigNum cNorm (GetDiagonal U) n shifts) js (U, X, scales)
         = (U1, X1, scales1) \<and> i \<noteq> j"
  then have f: "fold (columnStep smallNum bigNum cNorm (GetDiagonal U) n shifts) js (U, X, scales)
         = (U1, X1, scales1)" and ij: "i \<noteq> j" by auto
  have "sameOffDiagonal U U1"
    by (rule fold_columnStep_sameOffDiagonal[OF sameOffDiagonal_refl f])
  with ij show "Get U1 i j = Get U i j" by (auto simp: sameOffDiagonal_def)
qed

lemma exampleU_dims: "Height exampleU = 2" "Width exampleU = 2"
  by (simp_all add: exampleU_def)

theorem MultiShiftDiagonalBlockSolve_restores_U_witness:
  "Height exampleU = Width exampleU \<and> Width exampleU = Height exampleX2 \<and>
   length [7, 9 :: real] = Width exampleX2 \<and>
   (\<exists>X' scales'. MultiShiftDiagonalBlockSolve exampleMachine exampleU [7, 9] exampleX2 =
      Inr (exampleU, X', scales'))"
  using MultiShiftDiagonalBlockSolve_restores_U[where U = exampleU and X = exampleX2
      and shifts = "[7, 9]" and M = exampleMachine]
  by (simp add: exampleU_def exampleX2_def)









end
